theory Spec2Isabelle
  imports Complex_Main "HOL-Library.Char_ord" "HOL-Library.List_Lexorder" "HOL-Library.Word"
begin

section \<open>The value model of \<^verbatim>\<open>json.hpp\<close>\<close>

text \<open>
  \<^verbatim>\<open>JsonValue\<close> wraps a \<^verbatim>\<open>std::variant<nullptr_t, bool, double, std::string, JsonArray,
  JsonObject>\<close>. \<^verbatim>\<open>JsonArray\<close> is a \<^verbatim>\<open>std::vector<JsonValue>\<close>, a list.
  \<^verbatim>\<open>JsonObject\<close> is a \<^verbatim>\<open>std::map<std::string, JsonValue>\<close>: the container keeps
  one entry per key and iterates in the order of \<^verbatim>\<open>std::less<std::string>\<close>, so it is
  modelled by the list of its entries in iteration order. A \<^verbatim>\<open>std::string\<close> is a list of
  bytes; \<^verbatim>\<open>std::string::compare\<close> orders them as unsigned bytes, lexicographically, which
  is the order of \<^theory_text>\<open>Char_ord\<close> and \<^theory_text>\<open>List_Lexorder\<close>.

  The payload of a number is the \<^verbatim>\<open>double\<close> that \<^verbatim>\<open>std::stod\<close> returns. The binary64
  representation is not modelled: the payload is the exact decimal value of the text
  (see \<open>stod\<close> below, which does model the exception of \<^verbatim>\<open>std::stod\<close>).
\<close>

datatype JsonValue =
    Null
  | Bool bool
  | Number real
  | String string
  | Array "JsonValue list"
  | Object "(string \<times> JsonValue) list"

type_synonym JsonArray = "JsonValue list"
type_synonym JsonObject = "(string \<times> JsonValue) list"

text \<open>
  What the code throws: a \<^verbatim>\<open>ParseError\<close> with its message, the
  \<^verbatim>\<open>std::bad_variant_access\<close> of \<^verbatim>\<open>std::get\<close> on the wrong alternative, and the
  \<^verbatim>\<open>std::out_of_range\<close> of \<^verbatim>\<open>std::stod\<close> and of \<^verbatim>\<open>string_view::substr\<close> past the
  end.
\<close>

datatype error = ParseError string | bad_variant_access | out_of_range

definition is_null :: "JsonValue \<Rightarrow> bool" where
  "is_null v = (case v of Null \<Rightarrow> True | _ \<Rightarrow> False)"

definition is_bool :: "JsonValue \<Rightarrow> bool" where
  "is_bool v = (case v of Bool _ \<Rightarrow> True | _ \<Rightarrow> False)"

definition is_number :: "JsonValue \<Rightarrow> bool" where
  "is_number v = (case v of Number _ \<Rightarrow> True | _ \<Rightarrow> False)"

definition is_string :: "JsonValue \<Rightarrow> bool" where
  "is_string v = (case v of String _ \<Rightarrow> True | _ \<Rightarrow> False)"

definition is_array :: "JsonValue \<Rightarrow> bool" where
  "is_array v = (case v of Array _ \<Rightarrow> True | _ \<Rightarrow> False)"

definition is_object :: "JsonValue \<Rightarrow> bool" where
  "is_object v = (case v of Object _ \<Rightarrow> True | _ \<Rightarrow> False)"

text \<open>The accessors are \<^verbatim>\<open>std::get<T>(value_)\<close>, which throws on another alternative.\<close>

definition as_string :: "JsonValue \<Rightarrow> error + string" where
  "as_string v = (case v of String s \<Rightarrow> Inr s | _ \<Rightarrow> Inl bad_variant_access)"

definition as_number :: "JsonValue \<Rightarrow> error + real" where
  "as_number v = (case v of Number d \<Rightarrow> Inr d | _ \<Rightarrow> Inl bad_variant_access)"

definition as_bool :: "JsonValue \<Rightarrow> error + bool" where
  "as_bool v = (case v of Bool b \<Rightarrow> Inr b | _ \<Rightarrow> Inl bad_variant_access)"

definition as_array :: "JsonValue \<Rightarrow> error + JsonArray" where
  "as_array v = (case v of Array a \<Rightarrow> Inr a | _ \<Rightarrow> Inl bad_variant_access)"

definition as_object :: "JsonValue \<Rightarrow> error + JsonObject" where
  "as_object v = (case v of Object obj \<Rightarrow> Inr obj | _ \<Rightarrow> Inl bad_variant_access)"

subsection \<open>The operations of \<^verbatim>\<open>std::map\<close> the code uses\<close>

text \<open>
  \<open>map_invariant\<close> is what every \<^verbatim>\<open>std::map\<close> satisfies: its entries are in strictly
  ascending key order. \<open>map_find\<close> is \<^verbatim>\<open>map::find\<close> (the entry, or \<open>None\<close> for
  \<^verbatim>\<open>end()\<close>); \<open>emplace\<close> is \<^verbatim>\<open>map::emplace\<close>, which inserts only when no entry has
  the key.
\<close>

definition map_invariant :: "JsonObject \<Rightarrow> bool" where
  "map_invariant obj = sorted_wrt (<) (map fst obj)"

definition map_find :: "JsonObject \<Rightarrow> string \<Rightarrow> (string \<times> JsonValue) option" where
  "map_find obj key = List.find (\<lambda>entry. fst entry = key) obj"

definition emplace :: "string \<Rightarrow> JsonValue \<Rightarrow> JsonObject \<Rightarrow> JsonObject" where
  "emplace key v obj =
     (case map_find obj key of
        Some _ \<Rightarrow> obj
      | None \<Rightarrow> insort_key fst (key, v) obj)"

subsection \<open>The lookup helpers \<^verbatim>\<open>get\<close>\<close>

text \<open>A returned pointer is \<open>Some\<close> of the value it points to, \<^verbatim>\<open>nullptr\<close> is \<open>None\<close>.\<close>

definition get_object :: "JsonObject \<Rightarrow> string \<Rightarrow> JsonValue option" where
  "get_object object key =
     (case map_find object key of
        None \<Rightarrow> None
      | Some it \<Rightarrow> Some (snd it))"

definition get_array :: "JsonArray \<Rightarrow> nat \<Rightarrow> JsonValue option" where
  "get_array array index = (if index \<ge> length array then None else Some (array ! index))"

section \<open>The parser\<close>

subsection \<open>Library functions\<close>

text \<open>
  \<^verbatim>\<open>std::isdigit\<close> and \<^verbatim>\<open>std::isspace\<close> of \<^verbatim>\<open><cctype>\<close>, on an
  \<^verbatim>\<open>unsigned char\<close>, in the "C" locale (the program never sets another): the decimal
  digits, and the six characters space, \<^verbatim>\<open>\t \n \v \f \r\<close> (0x09 to 0x0D).
\<close>

definition isdigit :: "char \<Rightarrow> bool" where
  "isdigit c = (CHR ''0'' \<le> c \<and> c \<le> CHR ''9'')"

definition isspace :: "char \<Rightarrow> bool" where
  "isspace c = (c = CHR 0x20 \<or> (CHR 0x09 \<le> c \<and> c \<le> CHR 0x0D))"

text \<open>
  \<^verbatim>\<open>string_view::substr(pos, n)\<close> throws \<^verbatim>\<open>std::out_of_range\<close> when \<open>pos\<close> is beyond
  the size, and otherwise returns at most \<open>n\<close> characters from \<open>pos\<close>.
\<close>

definition substr :: "string \<Rightarrow> nat \<Rightarrow> nat \<Rightarrow> error + string" where
  "substr s pos n = (if pos > length s then Inl out_of_range else Inr (take n (drop pos s)))"

text \<open>
  \<^verbatim>\<open>std::stod\<close>, on the texts \<^verbatim>\<open>parse_number\<close> hands it: an optional \<^verbatim>\<open>-\<close>, digits, an
  optional fraction and an optional exponent. \<open>decimal_value\<close> is the number the text
  denotes. \<^verbatim>\<open>std::stod\<close> calls \<^verbatim>\<open>std::strtod\<close> and throws \<^verbatim>\<open>std::out_of_range\<close> when
  that reports \<^verbatim>\<open>ERANGE\<close>: on overflow, which is when the value rounds to infinity
  (from \<open>2^1024 - 2^970\<close> on, half a unit in the last place above the greatest
  \<^verbatim>\<open>double\<close>), and on underflow, a value that is not zero and is below the least
  normal \<^verbatim>\<open>double\<close> \<open>2^-1022\<close>; the two bounds are written out as numerals,
  \<open>overflow_threshold\<close> and \<open>least_normal_inverse\<close> (which is \<open>2^1022\<close>). (At the two ends of the subnormal range the C
  standard leaves \<^verbatim>\<open>ERANGE\<close> to the implementation; the model takes all of it as
  underflow.) Otherwise \<^verbatim>\<open>std::stod\<close> returns the \<^verbatim>\<open>double\<close> nearest to the value:
  the model returns the value itself. The binary64 representation (rounding, the sign
  of zero) is not modelled.
\<close>

definition digits_val :: "string \<Rightarrow> nat" where
  "digits_val ds = foldl (\<lambda>acc c. 10 * acc + (of_char c - of_char (CHR ''0''))) 0 ds"

definition decimal_value :: "string \<Rightarrow> real" where
  "decimal_value s =
     (let neg = (take 1 s = ''-'');
          s1 = (if neg then drop 1 s else s);
          ip = takeWhile isdigit s1;
          s2 = dropWhile isdigit s1;
          dot = (take 1 s2 = ''.'');
          fp = (if dot then takeWhile isdigit (drop 1 s2) else []);
          s3 = (if dot then dropWhile isdigit (drop 1 s2) else s2);
          ex = (if take 1 s3 = ''e'' \<or> take 1 s3 = ''E'' then
                  (let s4 = drop 1 s3 in
                   if take 1 s4 = ''-'' then - int (digits_val (takeWhile isdigit (drop 1 s4)))
                   else if take 1 s4 = ''+'' then int (digits_val (takeWhile isdigit (drop 1 s4)))
                   else int (digits_val (takeWhile isdigit s4)))
                else 0);
          m = real (digits_val ip) + real (digits_val fp) / 10 ^ length fp;
          r = (if ex \<ge> 0 then m * 10 ^ nat ex else m / 10 ^ nat (- ex))
      in if neg then - r else r)"

definition overflow_threshold :: real where
  "overflow_threshold =
     179769313486231580793728971405303415079934132710037826936173778980444968292764750946649017977587207096330286416692887910946555547851940402630657488671505820681908902000708383676273854845817711531764475730270069855571366959622842914819860834936475292719074168444365510704342711559699508093042880177904174497792"

definition least_normal_inverse :: real where
  "least_normal_inverse =
     44942328371557897693232629769725618340449424473557664318357520289433168951375240783177119330601884005280028469967848339414697442203604155623211857659868531094441973356216371319075554900311523529863270738021251442209537670585615720368478277635206809290837627671146574559986811484619929076208839082406056034304"

definition stod :: "string \<Rightarrow> error + real" where
  "stod s =
     (let x = decimal_value s in
      if overflow_threshold \<le> \<bar>x\<bar> \<or> (x \<noteq> 0 \<and> \<bar>x\<bar> * least_normal_inverse < 1)
      then Inl out_of_range
      else Inr x)"

lemma overflow_threshold_eq: "overflow_threshold = 2 ^ 1024 - 2 ^ 970"
  by (simp add: overflow_threshold_def)

lemma least_normal_inverse_eq: "least_normal_inverse = 2 ^ 1022"
  by (simp add: least_normal_inverse_def)

subsection \<open>The cursor\<close>

text \<open>
  The parser's state is the input view \<open>inp\<close>, which never changes, and the cursor
  \<^verbatim>\<open>pos_\<close>. Every function takes the cursor and returns the new one with its result; a
  thrown exception is \<open>Inl\<close>.
\<close>

definition eof :: "string \<Rightarrow> nat \<Rightarrow> bool" where
  "eof inp pos = (pos \<ge> length inp)"

definition peek :: "string \<Rightarrow> nat \<Rightarrow> error + char" where
  "peek inp pos =
     (if eof inp pos then Inl (ParseError ''Unexpected end of input'')
      else Inr (inp ! pos))"

definition advance :: "string \<Rightarrow> nat \<Rightarrow> error + (char \<times> nat)" where
  "advance inp pos =
     (if eof inp pos then Inl (ParseError ''Unexpected end of input'')
      else Inr (inp ! pos, pos + 1))"

function skip_whitespace :: "string \<Rightarrow> nat \<Rightarrow> nat" where
  "skip_whitespace inp pos =
     (if \<not> eof inp pos \<and> isspace (inp ! pos) then skip_whitespace inp (pos + 1) else pos)"
  by pat_completeness auto
termination
  by (relation "measure (\<lambda>(inp, pos). length inp - pos)") (auto simp: eof_def)

declare skip_whitespace.simps [simp del]

text \<open>\<^verbatim>\<open>match\<close> returns whether the text is at the cursor, and the cursor after it.\<close>

definition match :: "string \<Rightarrow> nat \<Rightarrow> string \<Rightarrow> error + (bool \<times> nat)" where
  "match inp pos text =
     (case substr inp pos (length text) of
        Inl e \<Rightarrow> Inl e
      | Inr t \<Rightarrow> if t = text then Inr (True, pos + length text) else Inr (False, pos))"

text \<open>The two overloads of \<^verbatim>\<open>expect\<close>: a text, and one character.\<close>

definition expect :: "string \<Rightarrow> nat \<Rightarrow> string \<Rightarrow> error + nat" where
  "expect inp pos text =
     (case match inp pos text of
        Inl e \<Rightarrow> Inl e
      | Inr (matched, p) \<Rightarrow>
          if \<not> matched then Inl (ParseError (''Expected '' @ [CHR 0x27] @ text @ [CHR 0x27]))
          else Inr p)"

definition expect_char :: "string \<Rightarrow> nat \<Rightarrow> char \<Rightarrow> error + nat" where
  "expect_char inp pos expected =
     (if eof inp pos then Inl (ParseError (''Expected '' @ [CHR 0x27, expected, CHR 0x27]))
      else (case advance inp pos of
        Inl e \<Rightarrow> Inl e
      | Inr (ch, p) \<Rightarrow>
          if ch \<noteq> expected then Inl (ParseError (''Expected '' @ [CHR 0x27, expected, CHR 0x27]))
          else Inr p))"

subsection \<open>Literals and numbers\<close>

definition parse_null :: "string \<Rightarrow> nat \<Rightarrow> error + (JsonValue \<times> nat)" where
  "parse_null inp pos =
     (case expect inp pos ''null'' of
        Inl e \<Rightarrow> Inl e
      | Inr p \<Rightarrow> Inr (Null, p))"

definition parse_bool :: "string \<Rightarrow> nat \<Rightarrow> error + (JsonValue \<times> nat)" where
  "parse_bool inp pos =
     (case match inp pos ''true'' of
        Inl e \<Rightarrow> Inl e
      | Inr (matched, p) \<Rightarrow>
          if matched then Inr (Bool True, p)
          else (case match inp p ''false'' of
            Inl e \<Rightarrow> Inl e
          | Inr (matched', p') \<Rightarrow>
              if matched' then Inr (Bool False, p')
              else Inl (ParseError ''Invalid boolean value'')))"

text \<open>
  The loop \<^verbatim>\<open>while (!eof() && std::isdigit(peek())) advance();\<close>, which
  \<^verbatim>\<open>parse_number\<close> runs for the integer part, the fraction and the exponent.
\<close>

function skip_digits :: "string \<Rightarrow> nat \<Rightarrow> nat" where
  "skip_digits inp pos =
     (if \<not> eof inp pos \<and> isdigit (inp ! pos) then skip_digits inp (pos + 1) else pos)"
  by pat_completeness auto
termination
  by (relation "measure (\<lambda>(inp, pos). length inp - pos)") (auto simp: eof_def)

declare skip_digits.simps [simp del]

text \<open>
  \<^verbatim>\<open>parse_number\<close> is three blocks after the sign, each an \<^verbatim>\<open>if\<close> statement on
  the cursor: the integer part, the fraction and the exponent. Each block is a
  definition here, from the cursor before it to the cursor after it.
\<close>

definition parse_number_integer :: "string \<Rightarrow> nat \<Rightarrow> error + nat" where
  "parse_number_integer inp pos =
     (case peek inp pos of
        Inl e \<Rightarrow> Inl e
      | Inr ch \<Rightarrow>
          if ch = CHR ''0'' then Inr (pos + 1)
          else if isdigit ch then Inr (skip_digits inp pos)
          else Inl (ParseError ''Invalid number''))"

definition parse_number_fraction :: "string \<Rightarrow> nat \<Rightarrow> error + nat" where
  "parse_number_fraction inp pos =
     (if \<not> eof inp pos \<and> inp ! pos = CHR ''.'' then
        (let p = pos + 1 in
         if eof inp p \<or> \<not> isdigit (inp ! p) then Inl (ParseError ''Invalid number fraction'')
         else Inr (skip_digits inp p))
      else Inr pos)"

definition parse_number_exponent :: "string \<Rightarrow> nat \<Rightarrow> error + nat" where
  "parse_number_exponent inp pos =
     (if \<not> eof inp pos \<and> (inp ! pos = CHR ''e'' \<or> inp ! pos = CHR ''E'') then
        (let p = pos + 1;
             p' = (if \<not> eof inp p \<and> (inp ! p = CHR ''+'' \<or> inp ! p = CHR ''-'') then p + 1 else p)
         in if eof inp p' \<or> \<not> isdigit (inp ! p') then Inl (ParseError ''Invalid number exponent'')
            else Inr (skip_digits inp p'))
      else Inr pos)"

definition parse_number :: "string \<Rightarrow> nat \<Rightarrow> error + (JsonValue \<times> nat)" where
  "parse_number inp start =
     (case peek inp start of
        Inl e \<Rightarrow> Inl e
      | Inr sign \<Rightarrow>
     (let p1 = (if sign = CHR ''-'' then start + 1 else start) in
      if eof inp p1 then Inl (ParseError ''Unexpected end of input in number'')
      else
     (case parse_number_integer inp p1 of
        Inl e \<Rightarrow> Inl e
      | Inr p2 \<Rightarrow>
     (case parse_number_fraction inp p2 of
        Inl e \<Rightarrow> Inl e
      | Inr p3 \<Rightarrow>
     (case parse_number_exponent inp p3 of
        Inl e \<Rightarrow> Inl e
      | Inr p4 \<Rightarrow>
     (case substr inp start (p4 - start) of
        Inl e \<Rightarrow> Inl e
      | Inr lexeme \<Rightarrow>
     (case stod lexeme of
        Inl e \<Rightarrow> Inl e
      | Inr d \<Rightarrow> Inr (Number d, p4))))))))"

subsection \<open>Strings\<close>

text \<open>
  The loop of \<^verbatim>\<open>parse_unicode_escape\<close>, with the number of iterations left and the
  \<^verbatim>\<open>uint32_t value\<close>. The comparisons of \<^verbatim>\<open>ch\<close> with the ASCII bounds give the same
  answer whether \<^verbatim>\<open>char\<close> is signed or not: a byte from 0x80 is in none of the ranges.
\<close>

fun parse_unicode_escape_loop :: "nat \<Rightarrow> string \<Rightarrow> nat \<Rightarrow> 32 word \<Rightarrow> error + (32 word \<times> nat)" where
  "parse_unicode_escape_loop 0 inp pos val = Inr (val, pos)"
| "parse_unicode_escape_loop (Suc n) inp pos val =
     (if eof inp pos then Inl (ParseError ''Unexpected end of input in unicode escape'')
      else
        let ch = inp ! pos;
            shifted = push_bit 4 val
        in if CHR ''0'' \<le> ch \<and> ch \<le> CHR ''9'' then
             parse_unicode_escape_loop n inp (pos + 1)
               (shifted + of_nat (of_char ch - of_char (CHR ''0'')))
           else if CHR ''a'' \<le> ch \<and> ch \<le> CHR ''f'' then
             parse_unicode_escape_loop n inp (pos + 1)
               (shifted + of_nat (10 + of_char ch - of_char (CHR ''a'')))
           else if CHR ''A'' \<le> ch \<and> ch \<le> CHR ''F'' then
             parse_unicode_escape_loop n inp (pos + 1)
               (shifted + of_nat (10 + of_char ch - of_char (CHR ''A'')))
           else Inl (ParseError ''Invalid unicode escape''))"

definition parse_unicode_escape :: "string \<Rightarrow> nat \<Rightarrow> error + (char \<times> nat)" where
  "parse_unicode_escape inp pos =
     (case parse_unicode_escape_loop 4 inp pos 0 of
        Inl e \<Rightarrow> Inl e
      | Inr (val, p) \<Rightarrow>
          if val \<le> 0x7F then Inr (char_of (unat val), p)
          else Inr (CHR ''?'', p))"

text \<open>
  The switch of \<^verbatim>\<open>parse_string\<close> on the character after a backslash: the character
  it pushes and the cursor after the escape.
\<close>

definition parse_escape :: "string \<Rightarrow> nat \<Rightarrow> char \<Rightarrow> error + (char \<times> nat)" where
  "parse_escape inp pos escaped =
     (if escaped = CHR 0x22 then Inr (CHR 0x22, pos)
      else if escaped = CHR 0x5C then Inr (CHR 0x5C, pos)
      else if escaped = CHR ''/'' then Inr (CHR ''/'', pos)
      else if escaped = CHR ''b'' then Inr (CHR 0x08, pos)
      else if escaped = CHR ''f'' then Inr (CHR 0x0C, pos)
      else if escaped = CHR ''n'' then Inr (CHR 0x0A, pos)
      else if escaped = CHR ''r'' then Inr (CHR 0x0D, pos)
      else if escaped = CHR ''t'' then Inr (CHR 0x09, pos)
      else if escaped = CHR ''u'' then parse_unicode_escape inp pos
      else Inl (ParseError ''Invalid escape sequence''))"

lemma parse_unicode_escape_loop_pos:
  "parse_unicode_escape_loop n inp pos val = Inr (val', p) \<Longrightarrow>
     p = pos + n \<and> (0 < n \<longrightarrow> p \<le> length inp)"
proof (induction n arbitrary: pos val)
  case 0
  then show ?case by simp
next
  case (Suc n)
  from Suc.prems have notend: "pos < length inp"
    by (auto simp: eof_def split: if_splits)
  from Suc.prems obtain val1 where "parse_unicode_escape_loop n inp (pos + 1) val1 = Inr (val', p)"
    by (auto simp: Let_def split: if_splits)
  from Suc.IH [OF this] notend show ?case by (cases n) auto
qed

lemma parse_unicode_escape_pos:
  "parse_unicode_escape inp pos = Inr (c, p) \<Longrightarrow> p = pos + 4 \<and> p \<le> length inp"
  by (auto simp: parse_unicode_escape_def split: sum.splits prod.splits if_splits
           dest: parse_unicode_escape_loop_pos)

lemma parse_escape_pos:
  "parse_escape inp pos escaped = Inr (c, p) \<Longrightarrow> pos \<le> length inp \<Longrightarrow> pos \<le> p \<and> p \<le> length inp"
  by (auto simp: parse_escape_def split: if_splits dest: parse_unicode_escape_pos)

text \<open>
  The loop of \<^verbatim>\<open>parse_string\<close>, from the cursor after the opening quote, with the
  \<^verbatim>\<open>result\<close> built so far. \<open>ch\<close> and \<open>p1\<close> are the character and the cursor that
  \<^verbatim>\<open>advance()\<close> returns.
\<close>

function parse_string_loop :: "string \<Rightarrow> nat \<Rightarrow> string \<Rightarrow> error + (JsonValue \<times> nat)" where
  "parse_string_loop inp pos result =
     (if eof inp pos then Inl (ParseError ''Unterminated string'')
      else
        let ch = inp ! pos;
            p1 = pos + 1
        in if ch = CHR 0x22 then Inr (String result, p1)
           else if ch = CHR 0x5C then
             (if eof inp p1 then Inl (ParseError ''Unterminated escape sequence'')
              else (case parse_escape inp (p1 + 1) (inp ! p1) of
                Inl e \<Rightarrow> Inl e
              | Inr (c, p2) \<Rightarrow> parse_string_loop inp p2 (result @ [c])))
           else if (of_char ch :: nat) < 0x20 then
             Inl (ParseError ''Invalid control character in string'')
           else parse_string_loop inp p1 (result @ [ch]))"
  by pat_completeness auto
termination
  by (relation "measure (\<lambda>(inp, pos, result). length inp - pos)")
     (auto simp: eof_def dest!: parse_escape_pos)

declare parse_string_loop.simps [simp del]

definition parse_string :: "string \<Rightarrow> nat \<Rightarrow> error + (JsonValue \<times> nat)" where
  "parse_string inp pos =
     (case expect_char inp pos (CHR 0x22) of
        Inl e \<Rightarrow> Inl e
      | Inr p \<Rightarrow> parse_string_loop inp p [])"

subsection \<open>The cursor only moves forward, inside the input\<close>

lemma skip_whitespace_eq:
  "skip_whitespace inp pos = pos + length (takeWhile isspace (drop pos inp))"
proof (induction inp pos rule: skip_whitespace.induct)
  case (1 inp pos)
  show ?case
  proof (cases "\<not> eof inp pos \<and> isspace (inp ! pos)")
    case True
    then have lt: "pos < length inp" by (simp add: eof_def)
    then have "drop pos inp = inp ! pos # drop (pos + 1) inp"
      by (simp add: Cons_nth_drop_Suc)
    with True "1.IH" show ?thesis by (subst skip_whitespace.simps) simp
  next
    case False
    show ?thesis
    proof (cases "pos < length inp")
      case True
      then have "drop pos inp = inp ! pos # drop (pos + 1) inp"
        by (simp add: Cons_nth_drop_Suc)
      with True False show ?thesis by (subst skip_whitespace.simps) (simp add: eof_def)
    next
      case False
      then show ?thesis by (subst skip_whitespace.simps) (simp add: eof_def)
    qed
  qed
qed

lemma skip_whitespace_ge: "pos \<le> skip_whitespace inp pos"
  by (simp add: skip_whitespace_eq)

lemma skip_whitespace_le: "pos \<le> length inp \<Longrightarrow> skip_whitespace inp pos \<le> length inp"
proof -
  assume "pos \<le> length inp"
  moreover have "length (takeWhile isspace (drop pos inp)) \<le> length (drop pos inp)"
    by (rule length_takeWhile_le)
  ultimately show ?thesis by (simp add: skip_whitespace_eq)
qed

lemma skip_digits_eq:
  "skip_digits inp pos = pos + length (takeWhile isdigit (drop pos inp))"
proof (induction inp pos rule: skip_digits.induct)
  case (1 inp pos)
  show ?case
  proof (cases "\<not> eof inp pos \<and> isdigit (inp ! pos)")
    case True
    then have lt: "pos < length inp" by (simp add: eof_def)
    then have "drop pos inp = inp ! pos # drop (pos + 1) inp"
      by (simp add: Cons_nth_drop_Suc)
    with True "1.IH" show ?thesis by (subst skip_digits.simps) simp
  next
    case False
    show ?thesis
    proof (cases "pos < length inp")
      case True
      then have "drop pos inp = inp ! pos # drop (pos + 1) inp"
        by (simp add: Cons_nth_drop_Suc)
      with True False show ?thesis by (subst skip_digits.simps) (simp add: eof_def)
    next
      case False
      then show ?thesis by (subst skip_digits.simps) (simp add: eof_def)
    qed
  qed
qed

lemma skip_digits_ge: "pos \<le> skip_digits inp pos"
  by (simp add: skip_digits_eq)

lemma skip_digits_le: "pos \<le> length inp \<Longrightarrow> skip_digits inp pos \<le> length inp"
proof -
  assume "pos \<le> length inp"
  moreover have "length (takeWhile isdigit (drop pos inp)) \<le> length (drop pos inp)"
    by (rule length_takeWhile_le)
  ultimately show ?thesis by (simp add: skip_digits_eq)
qed

lemma skip_digits_gt: "pos < length inp \<Longrightarrow> isdigit (inp ! pos) \<Longrightarrow> pos < skip_digits inp pos"
  using skip_digits_ge [of "pos + 1" inp] by (subst skip_digits.simps) (simp add: eof_def)

lemma peek_Inr: "peek inp pos = Inr c \<longleftrightarrow> pos < length inp \<and> c = inp ! pos"
  by (auto simp: peek_def eof_def)

lemma expect_char_Inr:
  "expect_char inp pos c = Inr p \<longleftrightarrow> pos < length inp \<and> inp ! pos = c \<and> p = pos + 1"
  by (auto simp: expect_char_def advance_def eof_def)

lemma match_Inr:
  "match inp pos text = Inr (b, p) \<Longrightarrow>
     pos \<le> length inp \<and> (if b then p = pos + length text \<and> p \<le> length inp else p = pos)"
proof -
  assume m: "match inp pos text = Inr (b, p)"
  then have le: "pos \<le> length inp"
    by (auto simp: match_def substr_def split: if_splits)
  show ?thesis
  proof (cases b)
    case True
    with m have "take (length text) (drop pos inp) = text" and "p = pos + length text"
      by (auto simp: match_def substr_def split: if_splits)
    then have "min (length text) (length inp - pos) = length text" and "p = pos + length text"
      using length_take [of "length text" "drop pos inp"] by simp_all
    with le True show ?thesis by simp
  next
    case False
    with m le show ?thesis by (auto simp: match_def substr_def split: if_splits)
  qed
qed

lemma parse_null_pos:
  "parse_null inp pos = Inr (v, p) \<Longrightarrow> pos < p \<and> p \<le> length inp"
  by (auto simp: parse_null_def expect_def split: sum.splits prod.splits if_splits dest!: match_Inr)

lemma parse_bool_pos:
  "parse_bool inp pos = Inr (v, p) \<Longrightarrow> pos < p \<and> p \<le> length inp"
  by (auto simp: parse_bool_def split: sum.splits prod.splits if_splits dest!: match_Inr)

lemma parse_string_loop_pos:
  "parse_string_loop inp pos result = Inr (v, p) \<Longrightarrow> pos < p \<and> p \<le> length inp"
proof (induction inp pos result rule: parse_string_loop.induct)
  case (1 inp pos result)
  from "1.prems" have lt: "pos < length inp"
    by (subst (asm) parse_string_loop.simps) (auto simp: eof_def split: if_splits)
  show ?case
  proof (cases "inp ! pos = CHR 0x22")
    case True
    with "1.prems" lt show ?thesis
      by (subst (asm) parse_string_loop.simps) (auto simp: eof_def)
  next
    case nq: False
    show ?thesis
    proof (cases "inp ! pos = CHR 0x5C")
      case True
      with "1.prems" nq lt obtain c p2 where
          lt1: "pos + 1 < length inp"
          and esc: "parse_escape inp (pos + 1 + 1) (inp ! (pos + 1)) = Inr (c, p2)"
          and rec: "parse_string_loop inp p2 (result @ [c]) = Inr (v, p)"
        by (subst (asm) parse_string_loop.simps)
           (auto simp: eof_def Let_def split: if_splits sum.splits prod.splits)
      from esc lt1 have "pos + 2 \<le> p2" using parse_escape_pos [of inp "pos + 2"] by simp
      moreover have "p2 < p \<and> p \<le> length inp"
        using "1.IH"(1) [OF _ refl refl nq True _ esc refl rec] lt lt1 by (simp add: eof_def)
      ultimately show ?thesis by simp
    next
      case False
      with "1.prems" nq lt have ok: "\<not> (of_char (inp ! pos) :: nat) < 0x20"
          and rec: "parse_string_loop inp (pos + 1) (result @ [inp ! pos]) = Inr (v, p)"
        by (subst (asm) parse_string_loop.simps; simp add: eof_def Let_def split: if_splits)+
      have "pos + 1 < p \<and> p \<le> length inp"
        using "1.IH"(2) [OF _ refl refl nq False ok rec] lt by (simp add: eof_def)
      then show ?thesis by simp
    qed
  qed
qed

lemma parse_string_pos:
  "parse_string inp pos = Inr (v, p) \<Longrightarrow> pos < p \<and> p \<le> length inp"
  by (auto simp: parse_string_def expect_char_Inr split: sum.splits dest!: parse_string_loop_pos)

lemma parse_number_integer_pos:
  "parse_number_integer inp pos = Inr p \<Longrightarrow> pos < p \<and> p \<le> length inp"
  using skip_digits_gt [of pos inp] skip_digits_le [of pos inp]
  by (auto simp: parse_number_integer_def peek_Inr split: sum.splits if_splits)

lemma parse_number_fraction_pos:
  "parse_number_fraction inp pos = Inr p \<Longrightarrow> pos \<le> length inp \<Longrightarrow> pos \<le> p \<and> p \<le> length inp"
  using skip_digits_ge [of "pos + 1" inp] skip_digits_le [of "pos + 1" inp]
  by (auto simp: parse_number_fraction_def eof_def Let_def split: if_splits)

lemma parse_number_exponent_pos:
  "parse_number_exponent inp pos = Inr p \<Longrightarrow> pos \<le> length inp \<Longrightarrow> pos \<le> p \<and> p \<le> length inp"
  using skip_digits_ge [of "pos + 1" inp] skip_digits_le [of "pos + 1" inp]
        skip_digits_ge [of "pos + 2" inp] skip_digits_le [of "pos + 2" inp]
  by (auto simp: parse_number_exponent_def eof_def Let_def split: if_splits)

lemma parse_number_pos:
  assumes "parse_number inp start = Inr (v, p)"
  shows "start < p \<and> p \<le> length inp"
proof -
  from assms obtain sign where sign: "peek inp start = Inr sign"
    by (auto simp: parse_number_def split: sum.splits)
  define p1 where "p1 = (if sign = CHR ''-'' then start + 1 else start)"
  from assms sign obtain p2 p3 where
      "\<not> eof inp p1" and p2: "parse_number_integer inp p1 = Inr p2"
      and p3: "parse_number_fraction inp p2 = Inr p3"
      and p4: "parse_number_exponent inp p3 = Inr p"
    unfolding parse_number_def p1_def
    by (auto simp: Let_def split: sum.splits if_splits)
  have "start \<le> p1" by (simp add: p1_def)
  moreover from p2 have "p1 < p2 \<and> p2 \<le> length inp" by (rule parse_number_integer_pos)
  moreover from this p3 have "p2 \<le> p3 \<and> p3 \<le> length inp" by (simp add: parse_number_fraction_pos)
  moreover from this p4 have "p3 \<le> p \<and> p \<le> length inp" by (simp add: parse_number_exponent_pos)
  ultimately show ?thesis by simp
qed

subsection \<open>Values, arrays and objects\<close>

text \<open>
  \<^verbatim>\<open>parse_value\<close>, \<^verbatim>\<open>parse_array\<close> and \<^verbatim>\<open>parse_object\<close> call each other. The
  \<^verbatim>\<open>while (true)\<close> loops of \<^verbatim>\<open>parse_array\<close> and \<^verbatim>\<open>parse_object\<close> are
  \<open>parse_array_loop\<close> and \<open>parse_object_loop\<close>: one call is one iteration, from the
  cursor at the start of an element (or of a key) with the container built so far.
  \<^verbatim>\<open>array.push_back\<close> appends; \<^verbatim>\<open>object.emplace\<close> is \<open>emplace\<close> above.
\<close>

function parse_value :: "string \<Rightarrow> nat \<Rightarrow> error + (JsonValue \<times> nat)"
  and parse_array :: "string \<Rightarrow> nat \<Rightarrow> error + (JsonValue \<times> nat)"
  and parse_array_loop :: "string \<Rightarrow> nat \<Rightarrow> JsonArray \<Rightarrow> error + (JsonValue \<times> nat)"
  and parse_object :: "string \<Rightarrow> nat \<Rightarrow> error + (JsonValue \<times> nat)"
  and parse_object_loop :: "string \<Rightarrow> nat \<Rightarrow> JsonObject \<Rightarrow> error + (JsonValue \<times> nat)"
where
  "parse_value inp pos =
     (if eof inp pos then Inl (ParseError ''Unexpected end of input'')
      else
        let ch = inp ! pos
        in if ch = CHR ''n'' then parse_null inp pos
           else if ch = CHR ''t'' \<or> ch = CHR ''f'' then parse_bool inp pos
           else if ch = CHR 0x22 then parse_string inp pos
           else if ch = CHR ''['' then parse_array inp pos
           else if ch = CHR ''{'' then parse_object inp pos
           else if ch = CHR ''-'' \<or> isdigit ch then parse_number inp pos
           else Inl (ParseError ''Invalid JSON value''))"
| "parse_array inp pos =
     (case expect_char inp pos (CHR ''['') of
        Inl e \<Rightarrow> Inl e
      | Inr p1 \<Rightarrow>
          (let p2 = skip_whitespace inp p1 in
           case peek inp p2 of
             Inl e \<Rightarrow> Inl e
           | Inr c \<Rightarrow>
               if c = CHR '']'' then Inr (Array [], p2 + 1)
               else parse_array_loop inp p2 []))"
| "parse_array_loop inp pos array =
     (case parse_value inp pos of
        Inl e \<Rightarrow> Inl e
      | Inr (v, p1) \<Rightarrow>
          (let array' = array @ [v];
               p2 = skip_whitespace inp p1
           in case peek inp p2 of
             Inl e \<Rightarrow> Inl e
           | Inr c \<Rightarrow>
               if c = CHR '','' then parse_array_loop inp (skip_whitespace inp (p2 + 1)) array'
               else if c = CHR '']'' then Inr (Array array', p2 + 1)
               else Inl (ParseError (''Expected '' @ [CHR 0x27] @ '','' @ [CHR 0x27] @ '' or '' @ [CHR 0x27] @ '']'' @ [CHR 0x27] @ '' in array''))))"
| "parse_object inp pos =
     (case expect_char inp pos (CHR ''{'') of
        Inl e \<Rightarrow> Inl e
      | Inr p1 \<Rightarrow>
          (let p2 = skip_whitespace inp p1 in
           case peek inp p2 of
             Inl e \<Rightarrow> Inl e
           | Inr c \<Rightarrow>
               if c = CHR ''}'' then Inr (Object [], p2 + 1)
               else parse_object_loop inp p2 []))"
| "parse_object_loop inp pos object =
     (case peek inp pos of
        Inl e \<Rightarrow> Inl e
      | Inr c \<Rightarrow>
     if c \<noteq> CHR 0x22 then Inl (ParseError ''Expected string key in object'')
     else
     (case parse_string inp pos of
        Inl e \<Rightarrow> Inl e
      | Inr (ks, p1) \<Rightarrow>
     (case as_string ks of
        Inl e \<Rightarrow> Inl e
      | Inr key \<Rightarrow>
     (case expect_char inp (skip_whitespace inp p1) (CHR '':'') of
        Inl e \<Rightarrow> Inl e
      | Inr p2 \<Rightarrow>
     (case parse_value inp (skip_whitespace inp p2) of
        Inl e \<Rightarrow> Inl e
      | Inr (v, p3) \<Rightarrow>
          (let object' = emplace key v object;
               p4 = skip_whitespace inp p3
           in case peek inp p4 of
             Inl e \<Rightarrow> Inl e
           | Inr c' \<Rightarrow>
               if c' = CHR '','' then parse_object_loop inp (skip_whitespace inp (p4 + 1)) object'
               else if c' = CHR ''}'' then Inr (Object object', p4 + 1)
               else Inl (ParseError (''Expected '' @ [CHR 0x27] @ '','' @ [CHR 0x27] @ '' or '' @ [CHR 0x27] @ ''}'' @ [CHR 0x27] @ '' in object''))))))))"
  by pat_completeness auto




text \<open>
  Termination. Where the functions are defined, a successful call moves the cursor
  forward and leaves it inside the input; with that, every recursive call is at a
  smaller distance to the end of the input, or at the same distance from a loop to
  \<open>parse_value\<close>, or from \<open>parse_value\<close> to \<open>parse_array\<close> and \<open>parse_object\<close>.
\<close>

lemma parse_progress_dom:
  "parse_value_parse_array_parse_array_loop_parse_object_parse_object_loop_dom (Inl (Inl (inp, pos))) \<Longrightarrow>
     parse_value inp pos = Inr (v, p) \<Longrightarrow> pos < p \<and> p \<le> length inp"
  "parse_value_parse_array_parse_array_loop_parse_object_parse_object_loop_dom (Inl (Inr (inp, pos))) \<Longrightarrow>
     parse_array inp pos = Inr (v, p) \<Longrightarrow> pos < p \<and> p \<le> length inp"
  "parse_value_parse_array_parse_array_loop_parse_object_parse_object_loop_dom (Inr (Inl (inp, pos, array))) \<Longrightarrow>
     parse_array_loop inp pos array = Inr (v, p) \<Longrightarrow> pos < p \<and> p \<le> length inp"
  "parse_value_parse_array_parse_array_loop_parse_object_parse_object_loop_dom (Inr (Inr (Inl (inp, pos)))) \<Longrightarrow>
     parse_object inp pos = Inr (v, p) \<Longrightarrow> pos < p \<and> p \<le> length inp"
  "parse_value_parse_array_parse_array_loop_parse_object_parse_object_loop_dom (Inr (Inr (Inr (inp, pos, object)))) \<Longrightarrow>
     parse_object_loop inp pos object = Inr (v, p) \<Longrightarrow> pos < p \<and> p \<le> length inp"
proof (induction inp pos and inp pos and inp pos array and inp pos and inp pos object
       arbitrary: v p and v p and v p and v p and v p
       rule: parse_value_parse_array_parse_array_loop_parse_object_parse_object_loop.pinduct)
  case (1 inp pos)
  note eq = parse_value.psimps [OF "1.hyps"]
  from "1.prems" have ne: "\<not> eof inp pos"
    by (simp add: eq split: if_splits)
  show ?case
  proof (cases "inp ! pos = CHR ''['' \<or> inp ! pos = CHR ''{''")
    case True
    with "1.prems" ne "1.IH" show ?thesis
      by (auto simp: eq Let_def split: if_splits)
  next
    case False
    with "1.prems" ne show ?thesis
      by (auto simp: eq Let_def split: if_splits
               dest: parse_null_pos parse_bool_pos parse_string_pos parse_number_pos)
  qed
next
  case (2 inp pos)
  note eq = parse_array.psimps [OF "2.hyps"]
  from "2.prems" obtain c where p1: "pos < length inp"
      and ec: "expect_char inp pos (CHR ''['') = Inr (pos + 1)"
      and c: "peek inp (skip_whitespace inp (pos + 1)) = Inr c"
      and r: "if c = CHR '']'' then p = skip_whitespace inp (pos + 1) + 1
              else parse_array_loop inp (skip_whitespace inp (pos + 1)) [] = Inr (v, p)"
    by (auto simp: eq Let_def expect_char_Inr split: sum.splits if_splits)
  from c have lt: "skip_whitespace inp (pos + 1) < length inp" by (simp add: peek_Inr)
  have ge: "pos + 1 \<le> skip_whitespace inp (pos + 1)" by (rule skip_whitespace_ge)
  show ?case
  proof (cases "c = CHR '']''")
    case True
    with r lt ge show ?thesis by simp
  next
    case False
    with r have "parse_array_loop inp (skip_whitespace inp (pos + 1)) [] = Inr (v, p)" by simp
    from "2.IH" [OF ec refl c False this] p1 ge show ?thesis
      by simp
  qed
next
  case (3 inp pos array)
  note eq = parse_array_loop.psimps [OF "3.hyps"]
  from "3.prems" obtain x y c where pv: "parse_value inp pos = Inr (x, y)"
      and c: "peek inp (skip_whitespace inp y) = Inr c"
      and r: "if c = CHR '','' then
                parse_array_loop inp (skip_whitespace inp (skip_whitespace inp y + 1)) (array @ [x]) = Inr (v, p)
              else c = CHR '']'' \<and> p = skip_whitespace inp y + 1"
    by (auto simp: eq Let_def split: sum.splits if_splits)
  from "3.IH"(1) [OF pv] have y: "pos < y \<and> y \<le> length inp" .
  from c have lt: "skip_whitespace inp y < length inp" by (simp add: peek_Inr)
  have ge: "y \<le> skip_whitespace inp y" by (rule skip_whitespace_ge)
  show ?case
  proof (cases "c = CHR '',''")
    case True
    with r have "parse_array_loop inp (skip_whitespace inp (skip_whitespace inp y + 1)) (array @ [x]) = Inr (v, p)"
      by simp
    from "3.IH"(2) [OF pv refl refl refl c True this]
      skip_whitespace_ge [of "skip_whitespace inp y + 1" inp] y ge
    show ?thesis by simp
  next
    case False
    with r y lt ge show ?thesis by simp
  qed
next
  case (4 inp pos)
  note eq = parse_object.psimps [OF "4.hyps"]
  from "4.prems" obtain c where p1: "pos < length inp"
      and ec: "expect_char inp pos (CHR ''{'') = Inr (pos + 1)"
      and c: "peek inp (skip_whitespace inp (pos + 1)) = Inr c"
      and r: "if c = CHR ''}'' then p = skip_whitespace inp (pos + 1) + 1
              else parse_object_loop inp (skip_whitespace inp (pos + 1)) [] = Inr (v, p)"
    by (auto simp: eq Let_def expect_char_Inr split: sum.splits if_splits)
  from c have lt: "skip_whitespace inp (pos + 1) < length inp" by (simp add: peek_Inr)
  have ge: "pos + 1 \<le> skip_whitespace inp (pos + 1)" by (rule skip_whitespace_ge)
  show ?case
  proof (cases "c = CHR ''}''")
    case True
    with r lt ge show ?thesis by simp
  next
    case False
    with r have "parse_object_loop inp (skip_whitespace inp (pos + 1)) [] = Inr (v, p)" by simp
    from "4.IH" [OF ec refl c False this] p1 ge show ?thesis
      by simp
  qed
next
  case (5 inp pos object)
  note eq = parse_object_loop.psimps [OF "5.hyps"]
  from "5.prems" obtain ks p1 key p2 x p3 c where pk: "peek inp pos = Inr (CHR 0x22)"
      and ps: "parse_string inp pos = Inr (ks, p1)"
      and ky: "as_string ks = Inr key"
      and ec: "expect_char inp (skip_whitespace inp p1) (CHR '':'') = Inr p2"
      and pv: "parse_value inp (skip_whitespace inp p2) = Inr (x, p3)"
      and c: "peek inp (skip_whitespace inp p3) = Inr c"
      and r: "if c = CHR '','' then
                parse_object_loop inp (skip_whitespace inp (skip_whitespace inp p3 + 1)) (emplace key x object) = Inr (v, p)
              else c = CHR ''}'' \<and> p = skip_whitespace inp p3 + 1"
    by (auto simp: eq Let_def split: sum.splits if_splits)
  from ps have b1: "pos < p1" by (auto dest: parse_string_pos)
  from ec have b2: "skip_whitespace inp p1 < p2" by (simp add: expect_char_Inr)
  have nn: "\<not> CHR 0x22 \<noteq> CHR 0x22" by simp
  from "5.IH"(1) [OF pk nn ps refl ky ec pv] have b3: "skip_whitespace inp p2 < p3 \<and> p3 \<le> length inp" .
  from c have lt: "skip_whitespace inp p3 < length inp" by (simp add: peek_Inr)
  note ges = skip_whitespace_ge [of p1 inp] skip_whitespace_ge [of p2 inp] skip_whitespace_ge [of p3 inp]
  show ?case
  proof (cases "c = CHR '',''")
    case True
    with r have "parse_object_loop inp (skip_whitespace inp (skip_whitespace inp p3 + 1)) (emplace key x object) = Inr (v, p)"
      by simp
    from "5.IH"(2) [OF pk nn ps refl ky ec pv refl refl refl c True this]
      skip_whitespace_ge [of "skip_whitespace inp p3 + 1" inp] b1 b2 b3 ges
    show ?thesis by simp
  next
    case False
    with r b1 b2 b3 lt ges show ?thesis by simp
  qed
qed


definition parse_measure ::
  "(string \<times> nat + string \<times> nat) + string \<times> nat \<times> JsonArray + string \<times> nat + string \<times> nat \<times> JsonObject
     \<Rightarrow> nat \<times> nat" where
  "parse_measure x =
     (case x of
        Inl (Inl (inp, pos)) \<Rightarrow> (length inp - pos, 1)
      | Inl (Inr (inp, pos)) \<Rightarrow> (length inp - pos, 0)
      | Inr (Inl (inp, pos, array)) \<Rightarrow> (length inp - pos, 2)
      | Inr (Inr (Inl (inp, pos))) \<Rightarrow> (length inp - pos, 0)
      | Inr (Inr (Inr (inp, pos, object))) \<Rightarrow> (length inp - pos, 2))"


lemma parse_dom: "All parse_value_parse_array_parse_array_loop_parse_object_parse_object_loop_dom"
  apply (relation "inv_image (less_than <*lex*> less_than) parse_measure")
  subgoal by (intro wf_inv_image wf_lex_prod wf_less_than)
  subgoal by (simp add: parse_measure_def)
  subgoal by (simp add: parse_measure_def)
  subgoal for inp pos b x ba
    using skip_whitespace_ge [of "Suc pos" inp]
    by (auto simp: parse_measure_def peek_Inr expect_char_Inr)
  subgoal by (simp add: parse_measure_def)
  subgoal for inp pos array b x y xa xb ba
    using parse_progress_dom(1) [of inp pos x y] skip_whitespace_ge [of y inp]
      skip_whitespace_ge [of "Suc (skip_whitespace inp y)" inp]
    by (auto simp: parse_measure_def peek_Inr)
  subgoal for inp pos b x ba
    using skip_whitespace_ge [of "Suc pos" inp]
    by (auto simp: parse_measure_def peek_Inr expect_char_Inr)
  subgoal for inp pos object b ba x y bb bc
    using parse_string_pos [of inp pos x y] skip_whitespace_ge [of y inp]
      skip_whitespace_ge [of "Suc (skip_whitespace inp y)" inp]
    by (auto simp: parse_measure_def peek_Inr expect_char_Inr)
  subgoal for inp pos object b ba x y bb bc bd xa ya xb xc be
    using parse_string_pos [of inp pos x y] skip_whitespace_ge [of y inp]
      skip_whitespace_ge [of "Suc (skip_whitespace inp y)" inp]
      parse_progress_dom(1) [of inp "skip_whitespace inp (Suc (skip_whitespace inp y))" xa ya]
      skip_whitespace_ge [of ya inp]
      skip_whitespace_ge [of "Suc (skip_whitespace inp ya)" inp]
    by (auto simp: parse_measure_def peek_Inr expect_char_Inr)
  done

termination parse_value
  using parse_dom by blast

declare parse_value.simps [simp del] parse_array.simps [simp del] parse_array_loop.simps [simp del]
  parse_object.simps [simp del] parse_object_loop.simps [simp del]

text \<open>The cursor after every successful call, now for all arguments.\<close>

lemma parse_value_pos: "parse_value inp pos = Inr (v, p) \<Longrightarrow> pos < p \<and> p \<le> length inp"
  using parse_progress_dom(1) parse_dom by blast

lemma parse_array_pos: "parse_array inp pos = Inr (v, p) \<Longrightarrow> pos < p \<and> p \<le> length inp"
  using parse_progress_dom(2) parse_dom by blast


lemma parse_object_pos: "parse_object inp pos = Inr (v, p) \<Longrightarrow> pos < p \<and> p \<le> length inp"
  using parse_progress_dom(4) parse_dom by blast


subsection \<open>The entry point\<close>

text \<open>
  \<^verbatim>\<open>parse(input)\<close> constructs a \<^verbatim>\<open>Parser\<close> with the cursor at 0 and runs
  \<^verbatim>\<open>Parser::parse\<close>.
\<close>

definition parse :: "string \<Rightarrow> error + JsonValue" where
  "parse inp =
     (case parse_value inp (skip_whitespace inp 0) of
        Inl e \<Rightarrow> Inl e
      | Inr (v, p) \<Rightarrow>
          if \<not> eof inp (skip_whitespace inp p)
          then Inl (ParseError ''Unexpected characters after JSON value'')
          else Inr v)"


section \<open>Notions for the properties\<close>

text \<open>
  To state what \<^verbatim>\<open>parse_unicode_escape\<close> computes: the hexadecimal digits, the number
  one digit denotes, and the number that the four digits from the cursor denote.
\<close>

definition hex_digit :: "char \<Rightarrow> bool" where
  "hex_digit c = ((CHR ''0'' \<le> c \<and> c \<le> CHR ''9'') \<or> (CHR ''a'' \<le> c \<and> c \<le> CHR ''f'')
                  \<or> (CHR ''A'' \<le> c \<and> c \<le> CHR ''F''))"

definition hex_value :: "char \<Rightarrow> nat" where
  "hex_value c =
     (if CHR ''0'' \<le> c \<and> c \<le> CHR ''9'' then of_char c - of_char (CHR ''0'')
      else if CHR ''a'' \<le> c \<and> c \<le> CHR ''f'' then 10 + (of_char c - of_char (CHR ''a''))
      else 10 + (of_char c - of_char (CHR ''A'')))"

definition hex4 :: "string \<Rightarrow> nat \<Rightarrow> nat" where
  "hex4 inp pos =
     4096 * hex_value (inp ! pos) + 256 * hex_value (inp ! (pos + 1))
       + 16 * hex_value (inp ! (pos + 2)) + hex_value (inp ! (pos + 3))"

text \<open>
  Iterating over a \<^verbatim>\<open>JsonObject\<close> visits its entries in the order of the list that
  models it. \<open>keys_ascending\<close> says that in a value every object, at any depth, has its
  keys in strictly ascending order of \<^verbatim>\<open>std::string\<close> comparison (bytewise
  lexicographic).
\<close>

fun keys_ascending :: "JsonValue \<Rightarrow> bool" where
  "keys_ascending (Object obj) = (map_invariant obj \<and> (\<forall>entry \<in> set obj. keys_ascending (snd entry)))"
| "keys_ascending (Array a) = (\<forall>v \<in> set a. keys_ascending v)"
| "keys_ascending _ = True"

text \<open>
  The pairs of an object literal, in the order of the input: \<open>object_pairs inp pos pairs p\<close>
  holds when the loop of \<^verbatim>\<open>parse_object\<close>, started with the cursor \<open>pos\<close> at a key,
  reads the keys and values \<open>pairs\<close> one after the other, each value followed by a comma
  but the last, which is followed by the closing brace, and leaves the cursor at \<open>p\<close>.
  \<open>emplace_all\<close> calls \<^verbatim>\<open>emplace\<close> for each pair in turn.
\<close>

inductive object_pairs :: "string \<Rightarrow> nat \<Rightarrow> (string \<times> JsonValue) list \<Rightarrow> nat \<Rightarrow> bool"
  for inp :: string where
  last_pair:
    "parse_string inp pos = Inr (String key, p1) \<Longrightarrow>
     expect_char inp (skip_whitespace inp p1) (CHR '':'') = Inr p2 \<Longrightarrow>
     parse_value inp (skip_whitespace inp p2) = Inr (v, p3) \<Longrightarrow>
     peek inp (skip_whitespace inp p3) = Inr (CHR ''}'') \<Longrightarrow>
     object_pairs inp pos [(key, v)] (skip_whitespace inp p3 + 1)"
| next_pair:
    "parse_string inp pos = Inr (String key, p1) \<Longrightarrow>
     expect_char inp (skip_whitespace inp p1) (CHR '':'') = Inr p2 \<Longrightarrow>
     parse_value inp (skip_whitespace inp p2) = Inr (v, p3) \<Longrightarrow>
     peek inp (skip_whitespace inp p3) = Inr (CHR '','') \<Longrightarrow>
     object_pairs inp (skip_whitespace inp (skip_whitespace inp p3 + 1)) pairs p \<Longrightarrow>
     object_pairs inp pos ((key, v) # pairs) p"

code_pred object_pairs .

definition emplace_all :: "(string \<times> JsonValue) list \<Rightarrow> JsonObject \<Rightarrow> JsonObject" where
  "emplace_all pairs object = foldl (\<lambda>obj (key, v). emplace key v obj) object pairs"

section \<open>Properties of the value model\<close>

lemma map_find_None_iff: "map_find obj key = None \<longleftrightarrow> key \<notin> fst ` set obj"
  by (auto simp: map_find_def find_None_iff image_iff)

lemma map_find_Some_key: "map_find obj key = Some e \<Longrightarrow> fst e = key \<and> e \<in> set obj"
  by (auto simp: map_find_def find_Some_iff)

lemma map_invariant_distinct: "map_invariant obj \<Longrightarrow> distinct (map fst obj)"
  by (simp add: map_invariant_def strict_sorted_iff)

lemma map_find_Some_iff_invariant:
  assumes "map_invariant obj"
  shows "map_find obj key = Some (k, v) \<longleftrightarrow> k = key \<and> (key, v) \<in> set obj"
proof
  assume "map_find obj key = Some (k, v)"
  then show "k = key \<and> (key, v) \<in> set obj" by (auto dest: map_find_Some_key)
next
  assume r: "k = key \<and> (key, v) \<in> set obj"
  then have "key \<in> fst ` set obj" by (auto simp: image_iff intro: bexI [of _ "(key, v)"])
  then have "map_find obj key \<noteq> None" by (simp add: map_find_None_iff)
  then obtain e where e: "map_find obj key = Some e" by auto
  then have "fst e = key" "e \<in> set obj" by (auto dest: map_find_Some_key)
  with r map_invariant_distinct [OF assms] have "e = (key, v)"
    by (metis eq_key_imp_eq_value prod.collapse)
  with e r show "map_find obj key = Some (k, v)" by simp
qed

text \<open>
  C7. An accessor \<^verbatim>\<open>as_<kind>\<close> returns the contained value when the value holds that
  kind, and on every other kind it fails with the type-mismatch error
  (\<^verbatim>\<open>std::bad_variant_access\<close>): it never returns a value, a coercion or a default.
\<close>

theorem as_accessors:
  "(is_string v \<longrightarrow> (\<exists>s. v = String s \<and> as_string v = Inr s)) \<and>
   (\<not> is_string v \<longrightarrow> as_string v = Inl bad_variant_access) \<and>
   (is_number v \<longrightarrow> (\<exists>d. v = Number d \<and> as_number v = Inr d)) \<and>
   (\<not> is_number v \<longrightarrow> as_number v = Inl bad_variant_access) \<and>
   (is_bool v \<longrightarrow> (\<exists>b. v = Bool b \<and> as_bool v = Inr b)) \<and>
   (\<not> is_bool v \<longrightarrow> as_bool v = Inl bad_variant_access) \<and>
   (is_array v \<longrightarrow> (\<exists>a. v = Array a \<and> as_array v = Inr a)) \<and>
   (\<not> is_array v \<longrightarrow> as_array v = Inl bad_variant_access) \<and>
   (is_object v \<longrightarrow> (\<exists>obj. v = Object obj \<and> as_object v = Inr obj)) \<and>
   (\<not> is_object v \<longrightarrow> as_object v = Inl bad_variant_access)"
  by (cases v)
     (simp_all add: is_string_def is_number_def is_bool_def is_array_def is_object_def
        as_string_def as_number_def as_bool_def as_array_def as_object_def)

theorem as_accessors_witness:
  "as_number (Number 1) = Inr 1 \<and> as_string (Number 1) = Inl bad_variant_access \<and>
   as_bool (Number 1) = Inl bad_variant_access \<and> as_array (Number 1) = Inl bad_variant_access \<and>
   as_object (Number 1) = Inl bad_variant_access"
  using as_accessors [of "Number 1"]
  by (simp add: is_string_def is_number_def is_bool_def is_array_def is_object_def)

text \<open>
  C5. \<^verbatim>\<open>get\<close> on an object returns the value stored under the key exactly when the
  key is present, and the absent result otherwise; \<^verbatim>\<open>get\<close> on an array returns the
  element exactly when the index is below the length, and the absent result otherwise.
  Both return an optional value and have no failure. The object is a \<^verbatim>\<open>std::map\<close>, so
  its entries satisfy \<open>map_invariant\<close>.
\<close>

theorem get_lookup:
  "(map_invariant object \<longrightarrow>
      (\<forall>v. get_object object key = Some v \<longleftrightarrow> (key, v) \<in> set object) \<and>
      (get_object object key = None \<longleftrightarrow> key \<notin> fst ` set object)) \<and>
   (index < length array \<longrightarrow> get_array array index = Some (array ! index)) \<and>
   (\<not> index < length array \<longrightarrow> get_array array index = None)"
proof -
  have "get_object object key = Some v \<longleftrightarrow> (key, v) \<in> set object" if inv: "map_invariant object" for v
  proof
    assume "get_object object key = Some v"
    then obtain k where "map_find object key = Some (k, v)"
      by (auto simp: get_object_def split: option.splits)
    with inv show "(key, v) \<in> set object" by (simp add: map_find_Some_iff_invariant)
  next
    assume "(key, v) \<in> set object"
    with inv have "map_find object key = Some (key, v)" by (simp add: map_find_Some_iff_invariant)
    then show "get_object object key = Some v" by (simp add: get_object_def)
  qed
  moreover have "get_object object key = None \<longleftrightarrow> map_find object key = None"
    by (simp add: get_object_def split: option.splits)
  then have "get_object object key = None \<longleftrightarrow> key \<notin> fst ` set object"
    by (simp add: map_find_None_iff)
  ultimately show ?thesis by (simp add: get_array_def)
qed

theorem get_lookup_witness:
  "get_object [(''a'', Null), (''b'', Bool True)] ''b'' = Some (Bool True) \<and>
   get_object [(''a'', Null), (''b'', Bool True)] ''c'' = None \<and>
   get_array [Null, Bool True] 1 = Some (Bool True) \<and>
   get_array [Null, Bool True] 2 = None"
  using get_lookup [of "[(''a'', Null), (''b'', Bool True)]" "''b''" 1 "[Null, Bool True]"]
        get_lookup [of "[(''a'', Null), (''b'', Bool True)]" "''c''" 2 "[Null, Bool True]"]
  by (simp add: map_invariant_def)

section \<open>Properties of the parser\<close>

lemma isspace_iff:
  "isspace c \<longleftrightarrow> c \<in> {CHR 0x20, CHR 0x09, CHR 0x0A, CHR 0x0B, CHR 0x0C, CHR 0x0D}"
proof
  assume "isspace c"
  then consider "c = CHR 0x20" | "(9 :: nat) \<le> of_char c \<and> of_char c \<le> (13 :: nat)"
    by (auto simp: isspace_def less_eq_char_def)
  then show "c \<in> {CHR 0x20, CHR 0x09, CHR 0x0A, CHR 0x0B, CHR 0x0C, CHR 0x0D}"
  proof cases
    case 1
    then show ?thesis by simp
  next
    case 2
    then have "of_char c = (9 :: nat) \<or> of_char c = (10 :: nat) \<or> of_char c = (11 :: nat)
        \<or> of_char c = (12 :: nat) \<or> of_char c = (13 :: nat)"
      by arith
    then have "of_char c = (of_char (CHR 0x09) :: nat) \<or> of_char c = (of_char (CHR 0x0A) :: nat)
        \<or> of_char c = (of_char (CHR 0x0B) :: nat) \<or> of_char c = (of_char (CHR 0x0C) :: nat)
        \<or> of_char c = (of_char (CHR 0x0D) :: nat)"
      by simp
    then show ?thesis unfolding of_char_eq_iff by blast
  qed
next
  assume "c \<in> {CHR 0x20, CHR 0x09, CHR 0x0A, CHR 0x0B, CHR 0x0C, CHR 0x0D}"
  then show "isspace c" by (auto simp: isspace_def less_eq_char_def)
qed

text \<open>
  C4, as the code has it. \<^verbatim>\<open>skip_whitespace\<close> skips exactly the longest run of characters
  that \<^verbatim>\<open>std::isspace\<close> accepts: the six characters space (0x20), tab (0x09), newline
  (0x0A), vertical tab (0x0B), form feed (0x0C) and carriage return (0x0D). The parser
  consumes whitespace nowhere else.
\<close>

theorem skip_whitespace_isspace:
  "skip_whitespace inp pos =
     pos + length (takeWhile (\<lambda>c. c \<in> {CHR 0x20, CHR 0x09, CHR 0x0A, CHR 0x0B, CHR 0x0C, CHR 0x0D})
                     (drop pos inp))"
  by (simp add: skip_whitespace_eq isspace_iff [abs_def])

text \<open>
  C4, as stated (only space, tab, newline and carriage return are skipped), fails: a
  vertical tab and a form feed are skipped too, so a number between them parses.
\<close>

theorem skip_whitespace_four_counterexample:
  "skip_whitespace [CHR 0x0B, CHR 0x0C, CHR ''1''] 0 = 2 \<and>
   CHR 0x0B \<notin> {CHR 0x20, CHR 0x09, CHR 0x0A, CHR 0x0D} \<and>
   CHR 0x0C \<notin> {CHR 0x20, CHR 0x09, CHR 0x0A, CHR 0x0D} \<and>
   parse [CHR 0x0B, CHR ''1'', CHR 0x0C] = Inr (Number 1)"
  by code_simp


text \<open>
  C3. \<^verbatim>\<open>parse\<close> succeeds only when the whole input is one JSON value: when characters
  remain after the value and the whitespace behind it, \<^verbatim>\<open>parse\<close> fails with the
  trailing-content error (\<^verbatim>\<open>Unexpected characters after JSON value\<close>), and when
  \<^verbatim>\<open>parse\<close> succeeds the cursor after the trailing whitespace is the end of the input.
  On \<^verbatim>\<open>01\<close> the number is the \<^verbatim>\<open>0\<close> alone (the cursor stops at 1) and the \<^verbatim>\<open>1\<close> left
  over makes \<^verbatim>\<open>parse\<close> fail with that error.
\<close>

theorem parse_trailing_content:
  "(parse_value inp (skip_whitespace inp 0) = Inr (v, p) \<and> skip_whitespace inp p < length inp \<longrightarrow>
      parse inp = Inl (ParseError ''Unexpected characters after JSON value'')) \<and>
   (parse inp = Inr v \<longrightarrow>
      (\<exists>p. parse_value inp (skip_whitespace inp 0) = Inr (v, p) \<and> skip_whitespace inp p = length inp)) \<and>
   parse_value ''01'' (skip_whitespace ''01'' 0) = Inr (Number 0, 1) \<and>
   parse ''01'' = Inl (ParseError ''Unexpected characters after JSON value'')"
proof -
  have "parse inp = Inl (ParseError ''Unexpected characters after JSON value'')"
    if "parse_value inp (skip_whitespace inp 0) = Inr (v, p)" "skip_whitespace inp p < length inp"
    using that by (simp add: parse_def eof_def)
  moreover have "\<exists>p. parse_value inp (skip_whitespace inp 0) = Inr (v, p) \<and> skip_whitespace inp p = length inp"
    if "parse inp = Inr v"
  proof -
    from that obtain p where pv: "parse_value inp (skip_whitespace inp 0) = Inr (v, p)"
        and e: "eof inp (skip_whitespace inp p)"
      by (auto simp: parse_def split: sum.splits if_splits)
    from pv have "p \<le> length inp" by (simp add: parse_value_pos)
    then have "skip_whitespace inp p \<le> length inp" by (rule skip_whitespace_le)
    with e have "skip_whitespace inp p = length inp" by (simp add: eof_def)
    with pv show ?thesis by blast
  qed
  moreover have "parse_value ''01'' (skip_whitespace ''01'' 0) = Inr (Number 0, 1)"
    by code_simp
  moreover have "parse ''01'' = Inl (ParseError ''Unexpected characters after JSON value'')"
    by code_simp
  ultimately show ?thesis by blast
qed

theorem parse_trailing_content_witness:
  "parse ''1 2'' = Inl (ParseError ''Unexpected characters after JSON value'') \<and>
   (\<exists>p. parse_value '' 1 '' (skip_whitespace '' 1 '' 0) = Inr (Number 1, p) \<and>
        skip_whitespace '' 1 '' p = length '' 1 '')"
proof -
  have a: "parse_value ''1 2'' (skip_whitespace ''1 2'' 0) = Inr (Number 1, 1)" by code_simp
  have b: "skip_whitespace ''1 2'' 1 < length ''1 2''" by code_simp
  have c: "parse '' 1 '' = Inr (Number 1)" by code_simp
  from parse_trailing_content [of "''1 2''" "Number 1" 1] a b
       parse_trailing_content [of "'' 1 ''" "Number 1"] c
  show ?thesis by blast
qed


subsection \<open>Raw bytes in strings\<close>

lemma parse_string_loop_plain:
  assumes "pos < length inp" "inp ! pos \<noteq> CHR 0x22" "inp ! pos \<noteq> CHR 0x5C"
    and "(0x20 :: nat) \<le> of_char (inp ! pos)"
  shows "parse_string_loop inp pos result = parse_string_loop inp (pos + 1) (result @ [inp ! pos])"
  using assms by (subst parse_string_loop.simps) (simp add: eof_def Let_def)

lemma parse_string_loop_control:
  assumes "pos < length inp" "(of_char (inp ! pos) :: nat) < 0x20"
  shows "parse_string_loop inp pos result = Inl (ParseError ''Invalid control character in string'')"
proof -
  from assms(2) have "inp ! pos \<noteq> CHR 0x22" "inp ! pos \<noteq> CHR 0x5C" by auto
  with assms show ?thesis by (subst parse_string_loop.simps) (simp add: eof_def Let_def)
qed

lemma high_byte_plain:
  "(0x80 :: nat) \<le> of_char c \<Longrightarrow> c \<noteq> CHR 0x22 \<and> c \<noteq> CHR 0x5C \<and> (0x20 :: nat) \<le> of_char c"
  by auto

lemma parse_escape_not_control:
  "parse_escape inp pos escaped \<noteq> Inl (ParseError ''Invalid control character in string'')"
proof -
  have "parse_unicode_escape_loop n inp p val \<noteq> Inl (ParseError ''Invalid control character in string'')"
    for n p val
    by (induction n inp p val rule: parse_unicode_escape_loop.induct) (simp_all add: Let_def)
  then have "parse_unicode_escape inp pos \<noteq> Inl (ParseError ''Invalid control character in string'')"
    by (auto simp: parse_unicode_escape_def split: sum.splits prod.splits)
  then show ?thesis by (simp add: parse_escape_def)
qed

lemma parse_string_loop_control_only:
  "parse_string_loop inp pos result = Inl (ParseError ''Invalid control character in string'') \<Longrightarrow>
     \<exists>i. pos \<le> i \<and> i < length inp \<and> (of_char (inp ! i) :: nat) < 0x20"
proof (induction inp pos result rule: parse_string_loop.induct)
  case (1 inp pos result)
  from "1.prems" have lt: "pos < length inp"
    by (subst (asm) parse_string_loop.simps) (auto simp: eof_def split: if_splits)
  from "1.prems" lt have nq: "inp ! pos \<noteq> CHR 0x22"
    by (subst (asm) parse_string_loop.simps) (auto simp: eof_def Let_def split: if_splits)
  show ?case
  proof (cases "inp ! pos = CHR 0x5C")
    case True
    with "1.prems" nq lt parse_escape_not_control [of inp "pos + 1 + 1" "inp ! (pos + 1)"]
    obtain c p2 where lt1: "\<not> eof inp (pos + 1)"
        and esc: "parse_escape inp (pos + 1 + 1) (inp ! (pos + 1)) = Inr (c, p2)"
        and rec: "parse_string_loop inp p2 (result @ [c]) = Inl (ParseError ''Invalid control character in string'')"
      by (subst (asm) parse_string_loop.simps)
         (auto simp: eof_def Let_def split: if_splits sum.splits prod.splits)
    from esc lt1 have "pos + 2 \<le> p2" using parse_escape_pos [of inp "pos + 2"] by (simp add: eof_def)
    moreover from "1.IH"(1) [OF _ refl refl nq True lt1 esc refl rec] lt
    obtain i where "p2 \<le> i \<and> i < length inp \<and> (of_char (inp ! i) :: nat) < 0x20"
      by (auto simp: eof_def)
    ultimately show ?thesis by (intro exI [of _ i]) simp
  next
    case False
    show ?thesis
    proof (cases "(of_char (inp ! pos) :: nat) < 0x20")
      case True
      with lt show ?thesis by blast
    next
      case ok: False
      with "1.prems" nq False lt
      have rec: "parse_string_loop inp (pos + 1) (result @ [inp ! pos]) = Inl (ParseError ''Invalid control character in string'')"
        by (subst (asm) parse_string_loop.simps) (simp add: eof_def Let_def)
      from "1.IH"(2) [OF _ refl refl nq False ok rec] lt
      obtain i where "pos + 1 \<le> i \<and> i < length inp \<and> (of_char (inp ! i) :: nat) < 0x20"
        by (auto simp: eof_def)
      then show ?thesis by (intro exI [of _ i]) simp
    qed
  qed
qed

lemma parse_string_loop_String:
  "parse_string_loop inp pos result = Inr (v, p) \<Longrightarrow> \<exists>out. v = String out"
proof (induction inp pos result rule: parse_string_loop.induct)
  case (1 inp pos result)
  from "1.prems" show ?case
    by (subst (asm) parse_string_loop.simps)
       (auto simp: Let_def split: if_splits sum.splits prod.splits
             dest: "1.IH"(1) [OF _ refl refl] "1.IH"(2) [OF _ refl refl])
qed

lemma parse_string_loop_accumulator:
  "(parse_string_loop inp pos r1 = Inr (String o1, p) \<longrightarrow>
      (\<exists>out. o1 = r1 @ out \<and> (\<forall>r2. parse_string_loop inp pos r2 = Inr (String (r2 @ out), p)))) \<and>
   (parse_string_loop inp pos r1 = Inl e \<longrightarrow> (\<forall>r2. parse_string_loop inp pos r2 = Inl e))"
proof (induction inp pos r1 arbitrary: o1 p e rule: parse_string_loop.induct)
  case (1 inp pos r1)
  show ?case
  proof (cases "eof inp pos")
    case True
    then have "parse_string_loop inp pos r = Inl (ParseError ''Unterminated string'')" for r
      by (subst parse_string_loop.simps) simp
    then show ?thesis by simp
  next
    case ne: False
    show ?thesis
    proof (cases "inp ! pos = CHR 0x22")
      case True
      with ne have "parse_string_loop inp pos r = Inr (String r, pos + 1)" for r
        by (subst parse_string_loop.simps) (simp add: Let_def)
      then show ?thesis by simp
    next
      case nq: False
      show ?thesis
      proof (cases "inp ! pos = CHR 0x5C")
        case bs: True
        show ?thesis
        proof (cases "eof inp (pos + 1)")
          case True
          with ne nq bs have "parse_string_loop inp pos r = Inl (ParseError ''Unterminated escape sequence'')" for r
            by (subst parse_string_loop.simps) (simp add: Let_def)
          then show ?thesis by simp
        next
          case ne1: False
          show ?thesis
          proof (cases "parse_escape inp (pos + 1 + 1) (inp ! (pos + 1))")
            case (Inl e')
            with ne nq bs ne1 have "parse_string_loop inp pos r = Inl e'" for r
              by (subst parse_string_loop.simps) (simp add: Let_def)
            then show ?thesis by simp
          next
            case (Inr cp)
            obtain c p2 where cp: "cp = (c, p2)" by (cases cp)
            from ne nq bs ne1 Inr cp
            have step: "parse_string_loop inp pos r = parse_string_loop inp p2 (r @ [c])" for r
              by (subst parse_string_loop.simps) (simp add: Let_def)
            note IH = "1.IH"(1) [OF ne refl refl nq bs ne1 Inr [unfolded cp] refl]
            show ?thesis
            proof (intro conjI impI)
              assume "parse_string_loop inp pos r1 = Inr (String o1, p)"
              then have "parse_string_loop inp p2 (r1 @ [c]) = Inr (String o1, p)" by (simp add: step)
              with IH [of o1 p] obtain out where "o1 = (r1 @ [c]) @ out"
                  and "\<forall>r2. parse_string_loop inp p2 r2 = Inr (String (r2 @ out), p)"
                by blast
              then have "o1 = r1 @ (c # out) \<and> (\<forall>r2. parse_string_loop inp pos r2 = Inr (String (r2 @ (c # out)), p))"
                by (simp add: step)
              then show "\<exists>out. o1 = r1 @ out \<and> (\<forall>r2. parse_string_loop inp pos r2 = Inr (String (r2 @ out), p))"
                by blast
            next
              assume "parse_string_loop inp pos r1 = Inl e"
              then have "parse_string_loop inp p2 (r1 @ [c]) = Inl e" by (simp add: step)
              with IH [of _ _ e] show "\<forall>r2. parse_string_loop inp pos r2 = Inl e"
                by (simp add: step)
            qed
          qed
        qed
      next
        case nb: False
        show ?thesis
        proof (cases "(of_char (inp ! pos) :: nat) < 0x20")
          case True
          with ne nq nb have "parse_string_loop inp pos r = Inl (ParseError ''Invalid control character in string'')" for r
            by (subst parse_string_loop.simps) (simp add: Let_def)
          then show ?thesis by simp
        next
          case ok: False
          from ne nq nb ok
          have step: "parse_string_loop inp pos r = parse_string_loop inp (pos + 1) (r @ [inp ! pos])" for r
            by (subst parse_string_loop.simps) (simp add: Let_def)
          note IH = "1.IH"(2) [OF ne refl refl nq nb ok]
          show ?thesis
          proof (intro conjI impI)
            assume "parse_string_loop inp pos r1 = Inr (String o1, p)"
            then have "parse_string_loop inp (pos + 1) (r1 @ [inp ! pos]) = Inr (String o1, p)"
              by (simp add: step)
            with IH [of o1 p] obtain out where "o1 = (r1 @ [inp ! pos]) @ out"
                and "\<forall>r2. parse_string_loop inp (pos + 1) r2 = Inr (String (r2 @ out), p)"
              by blast
            then have "o1 = r1 @ (inp ! pos # out) \<and>
                (\<forall>r2. parse_string_loop inp pos r2 = Inr (String (r2 @ (inp ! pos # out)), p))"
              by (simp add: step)
            then show "\<exists>out. o1 = r1 @ out \<and> (\<forall>r2. parse_string_loop inp pos r2 = Inr (String (r2 @ out), p))"
              by blast
          next
            assume "parse_string_loop inp pos r1 = Inl e"
            then have "parse_string_loop inp (pos + 1) (r1 @ [inp ! pos]) = Inl e" by (simp add: step)
            with IH [of _ _ e] show "\<forall>r2. parse_string_loop inp pos r2 = Inl e"
              by (simp add: step)
          qed
        qed
      qed
    qed
  qed
qed

lemma parse_string_loop_from_empty:
  assumes "parse_string_loop inp pos result = Inr (v, p)"
  shows "\<exists>out. v = String (result @ out) \<and> parse_string_loop inp pos [] = Inr (String out, p)"
proof -
  from assms obtain o1 where v: "v = String o1" by (auto dest: parse_string_loop_String)
  with assms parse_string_loop_accumulator [of inp pos result o1 p]
  obtain out where "o1 = result @ out" and "\<forall>r2. parse_string_loop inp pos r2 = Inr (String (r2 @ out), p)"
    by blast
  then have "v = String (result @ out) \<and> parse_string_loop inp pos [] = Inr (String ([] @ out), p)"
    using v by blast
  then show ?thesis by simp
qed

lemma parse_string_loop_error_from_empty:
  "parse_string_loop inp pos result = Inl e \<Longrightarrow> parse_string_loop inp pos [] = Inl e"
  using parse_string_loop_accumulator [of inp pos result _ _ e] by blast

lemma parse_string_loop_plain_literal:
  assumes "\<forall>c \<in> set s. c \<noteq> CHR 0x22 \<and> c \<noteq> CHR 0x5C \<and> (0x20 :: nat) \<le> of_char c"
  shows "parse_string_loop (pre @ s @ CHR 0x22 # rest) (length pre) result
           = Inr (String (result @ s), length pre + length s + 1)"
  using assms
proof (induction s arbitrary: pre result)
  case Nil
  show ?case by (subst parse_string_loop.simps) (simp add: eof_def Let_def)
next
  case (Cons c s)
  let ?inp = "pre @ (c # s) @ CHR 0x22 # rest"
  have at: "?inp ! length pre = c" by simp
  from Cons.prems have plain: "c \<noteq> CHR 0x22 \<and> c \<noteq> CHR 0x5C \<and> (0x20 :: nat) \<le> of_char c"
    by simp
  have "parse_string_loop ?inp (length pre) result = parse_string_loop ?inp (length pre + 1) (result @ [c])"
    using parse_string_loop_plain [of "length pre" ?inp result] plain at by simp
  also have "?inp = (pre @ [c]) @ s @ CHR 0x22 # rest" by simp
  also have "parse_string_loop \<dots> (length pre + 1) (result @ [c])
      = Inr (String ((result @ [c]) @ s), length (pre @ [c]) + length s + 1)"
    using Cons.IH [of "pre @ [c]" "result @ [c]"] Cons.prems by simp
  finally show ?case by simp
qed

lemma parse_string_plain_literal:
  assumes "\<forall>c \<in> set s. c \<noteq> CHR 0x22 \<and> c \<noteq> CHR 0x5C \<and> (0x20 :: nat) \<le> of_char c"
  shows "parse_string (pre @ CHR 0x22 # s @ CHR 0x22 # rest) (length pre)
           = Inr (String s, length pre + length s + 2)"
proof -
  have "expect_char (pre @ CHR 0x22 # s @ CHR 0x22 # rest) (length pre) (CHR 0x22) = Inr (length pre + 1)"
    by (simp add: expect_char_Inr)
  moreover have "parse_string_loop ((pre @ [CHR 0x22]) @ s @ CHR 0x22 # rest) (length (pre @ [CHR 0x22])) []
      = Inr (String ([] @ s), length (pre @ [CHR 0x22]) + length s + 1)"
    by (rule parse_string_loop_plain_literal [OF assms])
  ultimately show ?thesis by (simp add: parse_string_def)
qed

text \<open>
  C10. In every string literal an unescaped byte of value 0x80 or above is appended to
  the result unchanged and is never rejected. Where the loop of \<^verbatim>\<open>parse_string\<close> is at
  such a byte it goes on behind it with the byte appended; an unescaped byte that is
  neither the quote nor the backslash is rejected
  (\<^verbatim>\<open>Invalid control character in string\<close>) exactly when it is below 0x20, and that
  error is raised only where the input has a byte below 0x20. What the loop has
  appended stays: the string it returns is the result so far followed by what the loop
  returns from the same cursor with an empty result, so at a byte from 0x80 the string
  returned is the result so far, that byte, and the string of the rest of the literal;
  an error at such a byte is the error of the rest of the literal. A literal without
  escapes, of bytes from 0x20 in any mix of ASCII and bytes from 0x80, is returned byte
  for byte.
\<close>

theorem parse_string_raw_bytes:
  "(pos < length inp \<and> (0x80 :: nat) \<le> of_char (inp ! pos) \<longrightarrow>
      parse_string_loop inp pos result = parse_string_loop inp (pos + 1) (result @ [inp ! pos])) \<and>
   (pos < length inp \<and> inp ! pos \<noteq> CHR 0x22 \<and> inp ! pos \<noteq> CHR 0x5C \<longrightarrow>
      (if (of_char (inp ! pos) :: nat) < 0x20
       then parse_string_loop inp pos result = Inl (ParseError ''Invalid control character in string'')
       else parse_string_loop inp pos result = parse_string_loop inp (pos + 1) (result @ [inp ! pos]))) \<and>
   (parse_string_loop inp pos result = Inl (ParseError ''Invalid control character in string'') \<longrightarrow>
      (\<exists>i. pos \<le> i \<and> i < length inp \<and> (of_char (inp ! i) :: nat) < 0x20)) \<and>
   ((\<forall>c \<in> set s. (0x80 :: nat) \<le> of_char c) \<longrightarrow>
      parse_string (CHR 0x22 # s @ CHR 0x22 # rest) 0 = Inr (String s, length s + 2)) \<and>
   (parse_string_loop inp pos result = Inr (v, p) \<longrightarrow>
      (\<exists>out. v = String (result @ out) \<and> parse_string_loop inp pos [] = Inr (String out, p))) \<and>
   (pos < length inp \<and> (0x80 :: nat) \<le> of_char (inp ! pos) \<and>
    parse_string_loop inp pos result = Inr (v, p) \<longrightarrow>
      (\<exists>out. v = String (result @ inp ! pos # out) \<and>
         parse_string_loop inp (pos + 1) [] = Inr (String out, p))) \<and>
   (pos < length inp \<and> (0x80 :: nat) \<le> of_char (inp ! pos) \<and>
    parse_string_loop inp pos result = Inl e \<longrightarrow> parse_string_loop inp (pos + 1) [] = Inl e) \<and>
   ((\<forall>c \<in> set t. c \<noteq> CHR 0x22 \<and> c \<noteq> CHR 0x5C \<and> (0x20 :: nat) \<le> of_char c) \<longrightarrow>
      parse_string (pre @ CHR 0x22 # t @ CHR 0x22 # rest) (length pre)
        = Inr (String t, length pre + length t + 2))"
proof -
  have step: "parse_string_loop inp pos result = parse_string_loop inp (pos + 1) (result @ [inp ! pos])"
    if "pos < length inp" "(0x80 :: nat) \<le> of_char (inp ! pos)"
    using that parse_string_loop_plain [of pos inp result] high_byte_plain [of "inp ! pos"] by blast
  have c1: "pos < length inp \<and> (0x80 :: nat) \<le> of_char (inp ! pos) \<longrightarrow>
      parse_string_loop inp pos result = parse_string_loop inp (pos + 1) (result @ [inp ! pos])"
    using step by blast
  have c2: "pos < length inp \<and> inp ! pos \<noteq> CHR 0x22 \<and> inp ! pos \<noteq> CHR 0x5C \<longrightarrow>
      (if (of_char (inp ! pos) :: nat) < 0x20
       then parse_string_loop inp pos result = Inl (ParseError ''Invalid control character in string'')
       else parse_string_loop inp pos result = parse_string_loop inp (pos + 1) (result @ [inp ! pos]))"
    using parse_string_loop_plain [of pos inp result] parse_string_loop_control [of pos inp result]
    by (simp add: not_less)
  have c3: "parse_string_loop inp pos result = Inl (ParseError ''Invalid control character in string'') \<longrightarrow>
      (\<exists>i. pos \<le> i \<and> i < length inp \<and> (of_char (inp ! i) :: nat) < 0x20)"
    using parse_string_loop_control_only [of inp pos result] by blast
  have c4: "(\<forall>c \<in> set s. (0x80 :: nat) \<le> of_char c) \<longrightarrow>
      parse_string (CHR 0x22 # s @ CHR 0x22 # rest) 0 = Inr (String s, length s + 2)"
  proof
    assume "\<forall>c \<in> set s. (0x80 :: nat) \<le> of_char c"
    then have "\<forall>c \<in> set s. c \<noteq> CHR 0x22 \<and> c \<noteq> CHR 0x5C \<and> (0x20 :: nat) \<le> of_char c"
      using high_byte_plain by blast
    from parse_string_plain_literal [OF this, of "[]" rest]
    show "parse_string (CHR 0x22 # s @ CHR 0x22 # rest) 0 = Inr (String s, length s + 2)" by simp
  qed
  have c5: "parse_string_loop inp pos result = Inr (v, p) \<longrightarrow>
      (\<exists>out. v = String (result @ out) \<and> parse_string_loop inp pos [] = Inr (String out, p))"
    using parse_string_loop_from_empty [of inp pos result v p] by blast
  have c6: "pos < length inp \<and> (0x80 :: nat) \<le> of_char (inp ! pos) \<and>
    parse_string_loop inp pos result = Inr (v, p) \<longrightarrow>
      (\<exists>out. v = String (result @ inp ! pos # out) \<and>
         parse_string_loop inp (pos + 1) [] = Inr (String out, p))"
  proof
    assume h: "pos < length inp \<and> (0x80 :: nat) \<le> of_char (inp ! pos) \<and>
      parse_string_loop inp pos result = Inr (v, p)"
    then have "parse_string_loop inp (pos + 1) (result @ [inp ! pos]) = Inr (v, p)"
      using step by simp
    from parse_string_loop_from_empty [OF this]
    show "\<exists>out. v = String (result @ inp ! pos # out) \<and>
         parse_string_loop inp (pos + 1) [] = Inr (String out, p)"
      by simp
  qed
  have c7: "pos < length inp \<and> (0x80 :: nat) \<le> of_char (inp ! pos) \<and>
    parse_string_loop inp pos result = Inl e \<longrightarrow> parse_string_loop inp (pos + 1) [] = Inl e"
  proof
    assume h: "pos < length inp \<and> (0x80 :: nat) \<le> of_char (inp ! pos) \<and>
      parse_string_loop inp pos result = Inl e"
    then have "parse_string_loop inp (pos + 1) (result @ [inp ! pos]) = Inl e"
      using step by simp
    then show "parse_string_loop inp (pos + 1) [] = Inl e"
      by (rule parse_string_loop_error_from_empty)
  qed
  have c8: "(\<forall>c \<in> set t. c \<noteq> CHR 0x22 \<and> c \<noteq> CHR 0x5C \<and> (0x20 :: nat) \<le> of_char c) \<longrightarrow>
      parse_string (pre @ CHR 0x22 # t @ CHR 0x22 # rest) (length pre)
        = Inr (String t, length pre + length t + 2)"
    using parse_string_plain_literal [of t pre rest] by blast
  show ?thesis
    by (intro conjI c1 c2 c3 c4 c5 c6 c7 c8)
qed

theorem parse_string_raw_bytes_witness:
  "parse_string [CHR 0x22, CHR ''c'', CHR ''a'', CHR ''f'', CHR 0xC3, CHR 0xA9, CHR 0x22] 0
     = Inr (String [CHR ''c'', CHR ''a'', CHR ''f'', CHR 0xC3, CHR 0xA9], 7) \<and>
   parse [CHR 0x22, CHR ''c'', CHR ''a'', CHR ''f'', CHR 0xC3, CHR 0xA9, CHR 0x22]
     = Inr (String [CHR ''c'', CHR ''a'', CHR ''f'', CHR 0xC3, CHR 0xA9]) \<and>
   parse_string_loop [CHR 0x22, CHR 0x5C, CHR ''n'', CHR 0xC3, CHR 0xA9, CHR 0x22] 3 [CHR 0x0A]
     = Inr (String [CHR 0x0A, CHR 0xC3, CHR 0xA9], 6) \<and>
   (\<exists>out. String [CHR 0x0A, CHR 0xC3, CHR 0xA9] = String ([CHR 0x0A] @ CHR 0xC3 # out) \<and>
      parse_string_loop [CHR 0x22, CHR 0x5C, CHR ''n'', CHR 0xC3, CHR 0xA9, CHR 0x22] (3 + 1) []
        = Inr (String out, 6)) \<and>
   parse_string_loop [CHR 0x22, CHR 0xC3, CHR 0x1F, CHR 0x22] 1 []
     = Inl (ParseError ''Invalid control character in string'') \<and>
   parse_string_loop [CHR 0x22, CHR 0xC3, CHR 0x1F, CHR 0x22] (1 + 1) []
     = Inl (ParseError ''Invalid control character in string'') \<and>
   (\<exists>i. 1 \<le> i \<and> i < length [CHR 0x22, CHR 0xC3, CHR 0x1F, CHR 0x22] \<and>
      (of_char ([CHR 0x22, CHR 0xC3, CHR 0x1F, CHR 0x22] ! i) :: nat) < 0x20) \<and>
   parse_string [CHR 0x22, CHR 0xC3, CHR 0xA9, CHR 0x22] 0 = Inr (String [CHR 0xC3, CHR 0xA9], 4)"
proof -
  let ?caf = "[CHR ''c'', CHR ''a'', CHR ''f'', CHR 0xC3, CHR 0xA9]"
  let ?esc = "[CHR 0x22, CHR 0x5C, CHR ''n'', CHR 0xC3, CHR 0xA9, CHR 0x22]"
  let ?bad = "[CHR 0x22, CHR 0xC3, CHR 0x1F, CHR 0x22]"
  have a: "parse [CHR 0x22, CHR ''c'', CHR ''a'', CHR ''f'', CHR 0xC3, CHR 0xA9, CHR 0x22] = Inr (String ?caf)"
    by code_simp
  have b: "parse_string_loop ?esc 3 [CHR 0x0A] = Inr (String [CHR 0x0A, CHR 0xC3, CHR 0xA9], 6)"
    by code_simp
  have c: "parse_string_loop ?bad 1 [] = Inl (ParseError ''Invalid control character in string'')"
    by code_simp
  have plain: "\<forall>c \<in> set ?caf. c \<noteq> CHR 0x22 \<and> c \<noteq> CHR 0x5C \<and> (0x20 :: nat) \<le> of_char c"
    by simp
  have high: "\<forall>c \<in> set [CHR 0xC3, CHR 0xA9]. (0x80 :: nat) \<le> of_char c" by simp
  from parse_string_raw_bytes [of _ _ _ _ "[]" _ _ _ ?caf "[]"] plain
  have 1: "parse_string [CHR 0x22, CHR ''c'', CHR ''a'', CHR ''f'', CHR 0xC3, CHR 0xA9, CHR 0x22] 0
     = Inr (String ?caf, 7)"
    by simp
  from parse_string_raw_bytes [of 3 ?esc "[CHR 0x0A]" _ _ "String [CHR 0x0A, CHR 0xC3, CHR 0xA9]" 6] b
  have 2: "\<exists>out. String [CHR 0x0A, CHR 0xC3, CHR 0xA9] = String ([CHR 0x0A] @ CHR 0xC3 # out) \<and>
      parse_string_loop ?esc (3 + 1) [] = Inr (String out, 6)"
    by simp
  from parse_string_raw_bytes [of 1 ?bad "[]" _ _ _ _ "ParseError ''Invalid control character in string''"] c
  have 3: "parse_string_loop ?bad (1 + 1) [] = Inl (ParseError ''Invalid control character in string'')"
      and 4: "\<exists>i. 1 \<le> i \<and> i < length ?bad \<and> (of_char (?bad ! i) :: nat) < 0x20"
    by simp_all
  from parse_string_raw_bytes [of _ _ _ "[CHR 0xC3, CHR 0xA9]" "[]"] high
  have 5: "parse_string [CHR 0x22, CHR 0xC3, CHR 0xA9, CHR 0x22] 0 = Inr (String [CHR 0xC3, CHR 0xA9], 4)"
    by simp
  from 1 a b 2 c 3 4 5 show ?thesis by blast
qed


subsection \<open>One iteration of the object loop\<close>

lemma parse_object_loop_no_key:
  assumes "peek inp pos = Inr c" "c \<noteq> CHR 0x22"
  shows "parse_object_loop inp pos object = Inl (ParseError ''Expected string key in object'')"
  using assms by (subst parse_object_loop.simps) simp

lemma parse_string_String:
  "parse_string inp pos = Inr (ks, p) \<Longrightarrow> \<exists>key. ks = String key"
proof -
  have "parse_string_loop inp q result = Inr (ks, p) \<Longrightarrow> \<exists>key. ks = String key" for q result
  proof (induction inp q result rule: parse_string_loop.induct)
    case (1 inp q result)
    from "1.prems" show ?case
      by (subst (asm) parse_string_loop.simps)
         (auto simp: Let_def split: if_splits sum.splits prod.splits
               dest: "1.IH"(1) [OF _ refl refl] "1.IH"(2) [OF _ refl refl])
  qed
  then show "parse_string inp pos = Inr (ks, p) \<Longrightarrow> \<exists>key. ks = String key"
    by (auto simp: parse_string_def split: sum.splits)
qed

lemma parse_string_quote:
  "parse_string inp pos = Inr (ks, p) \<Longrightarrow> peek inp pos = Inr (CHR 0x22)"
  by (auto simp: parse_string_def expect_char_Inr peek_Inr split: sum.splits)

lemma parse_object_loop_no_colon:
  assumes "parse_string inp pos = Inr (ks, p1)"
    and "eof inp (skip_whitespace inp p1) \<or> inp ! skip_whitespace inp p1 \<noteq> CHR '':''"
  shows "parse_object_loop inp pos object = Inl (ParseError (''Expected '' @ [CHR 0x27] @ '':'' @ [CHR 0x27]))"
proof -
  from assms(1) obtain key where "ks = String key" by (auto dest: parse_string_String)
  then have k: "as_string ks = Inr key" by (simp add: as_string_def)
  from assms(2) have "expect_char inp (skip_whitespace inp p1) (CHR '':'')
      = Inl (ParseError (''Expected '' @ [CHR 0x27] @ '':'' @ [CHR 0x27]))"
    by (auto simp: expect_char_def advance_def)
  with assms(1) k parse_string_quote [OF assms(1)] show ?thesis
    by (subst parse_object_loop.simps) simp
qed

lemma parse_object_loop_comma:
  assumes "parse_string inp pos = Inr (String key, p1)"
    and "expect_char inp (skip_whitespace inp p1) (CHR '':'') = Inr p2"
    and "parse_value inp (skip_whitespace inp p2) = Inr (v, p3)"
    and "peek inp (skip_whitespace inp p3) = Inr (CHR '','')"
  shows "parse_object_loop inp pos object
           = parse_object_loop inp (skip_whitespace inp (skip_whitespace inp p3 + 1)) (emplace key v object)"
  using assms parse_string_quote [OF assms(1)]
  by (subst parse_object_loop.simps) (simp add: as_string_def Let_def)

lemma parse_object_loop_close:
  assumes "parse_string inp pos = Inr (String key, p1)"
    and "expect_char inp (skip_whitespace inp p1) (CHR '':'') = Inr p2"
    and "parse_value inp (skip_whitespace inp p2) = Inr (v, p3)"
    and "peek inp (skip_whitespace inp p3) = Inr (CHR ''}'')"
  shows "parse_object_loop inp pos object = Inr (Object (emplace key v object), skip_whitespace inp p3 + 1)"
  using assms parse_string_quote [OF assms(1)]
  by (subst parse_object_loop.simps) (simp add: as_string_def Let_def)

text \<open>
  C6. Inside an object literal, where the next pair is expected (at the start of an
  iteration of the loop of \<^verbatim>\<open>parse_object\<close>: after the opening brace, and after a
  comma), a next character other than the quote makes the parse fail with
  \<^verbatim>\<open>Expected string key in object\<close>; when the key is read and the next character after
  whitespace is not a colon, or the input ends there, it fails with
  \<^verbatim>\<open>Expected ':'\<close>. So a comma followed by the closing brace fails with
  \<^verbatim>\<open>Expected string key in object\<close>, as the parse of \<^verbatim>\<open>{"a":1,}\<close> does.
\<close>

theorem parse_object_key_colon:
  "(peek inp pos = Inr c \<and> c \<noteq> CHR 0x22 \<longrightarrow>
      parse_object_loop inp pos object = Inl (ParseError ''Expected string key in object'')) \<and>
   (parse_string inp pos = Inr (ks, p1) \<and>
    (eof inp (skip_whitespace inp p1) \<or> inp ! skip_whitespace inp p1 \<noteq> CHR '':'') \<longrightarrow>
      parse_object_loop inp pos object = Inl (ParseError (''Expected '' @ [CHR 0x27] @ '':'' @ [CHR 0x27]))) \<and>
   (parse_string inp pos = Inr (String key, p1) \<and>
    expect_char inp (skip_whitespace inp p1) (CHR '':'') = Inr p2 \<and>
    parse_value inp (skip_whitespace inp p2) = Inr (v, p3) \<and>
    peek inp (skip_whitespace inp p3) = Inr (CHR '','') \<and>
    peek inp (skip_whitespace inp (skip_whitespace inp p3 + 1)) = Inr c \<and> c \<noteq> CHR 0x22 \<longrightarrow>
      parse_object_loop inp pos object = Inl (ParseError ''Expected string key in object'')) \<and>
   parse ''{\"a\":1,}'' = Inl (ParseError ''Expected string key in object'')"
proof -
  have "parse ''{\"a\":1,}'' = Inl (ParseError ''Expected string key in object'')"
    by code_simp
  then show ?thesis
    using parse_object_loop_no_key [of inp pos c object]
      parse_object_loop_no_colon [of inp pos ks p1 object]
      parse_object_loop_comma [of inp pos key p1 p2 v p3 object]
      parse_object_loop_no_key [of inp "skip_whitespace inp (skip_whitespace inp p3 + 1)" c "emplace key v object"]
    by simp
qed

theorem parse_object_key_colon_witness:
  "parse_object_loop ''{a:1}'' 1 [] = Inl (ParseError ''Expected string key in object'') \<and>
   parse_object_loop ''{\"a\" 1}'' 1 [] = Inl (ParseError (''Expected '' @ [CHR 0x27] @ '':'' @ [CHR 0x27])) \<and>
   parse_object_loop ''{\"a\":1,}'' 1 [] = Inl (ParseError ''Expected string key in object'') \<and>
   parse ''{\"a\" 1}'' = Inl (ParseError (''Expected '' @ [CHR 0x27] @ '':'' @ [CHR 0x27])) \<and>
   parse ''{\"a\"'' = Inl (ParseError (''Expected '' @ [CHR 0x27] @ '':'' @ [CHR 0x27]))"
proof -
  have a: "peek ''{a:1}'' 1 = Inr (CHR ''a'')" by code_simp
  have b: "parse_string ''{\"a\" 1}'' 1 = Inr (String ''a'', 4)" by code_simp
  have b': "\<not> eof ''{\"a\" 1}'' (skip_whitespace ''{\"a\" 1}'' 4) \<and>
      ''{\"a\" 1}'' ! skip_whitespace ''{\"a\" 1}'' 4 \<noteq> CHR '':''"
    by code_simp
  have c1: "parse_string ''{\"a\":1,}'' 1 = Inr (String ''a'', 4)" by code_simp
  have c2: "expect_char ''{\"a\":1,}'' (skip_whitespace ''{\"a\":1,}'' 4) (CHR '':'') = Inr 5" by code_simp
  have c3: "parse_value ''{\"a\":1,}'' (skip_whitespace ''{\"a\":1,}'' 5) = Inr (Number 1, 6)" by code_simp
  have c4: "peek ''{\"a\":1,}'' (skip_whitespace ''{\"a\":1,}'' 6) = Inr (CHR '','')" by code_simp
  have c5: "peek ''{\"a\":1,}'' (skip_whitespace ''{\"a\":1,}'' (skip_whitespace ''{\"a\":1,}'' 6 + 1)) = Inr (CHR ''}'')"
    by code_simp
  have d: "parse ''{\"a\" 1}'' = Inl (ParseError (''Expected '' @ [CHR 0x27] @ '':'' @ [CHR 0x27]))"
    by code_simp
  have e: "parse ''{\"a\"'' = Inl (ParseError (''Expected '' @ [CHR 0x27] @ '':'' @ [CHR 0x27]))"
    by code_simp
  from parse_object_key_colon [of "''{a:1}''" 1 "CHR ''a''" "[]"] a
  have 1: "parse_object_loop ''{a:1}'' 1 [] = Inl (ParseError ''Expected string key in object'')"
    by simp
  from parse_object_key_colon [of "''{\"a\" 1}''" 1 _ "[]" "String ''a''" 4] b b'
  have 2: "parse_object_loop ''{\"a\" 1}'' 1 [] = Inl (ParseError (''Expected '' @ [CHR 0x27] @ '':'' @ [CHR 0x27]))"
    by blast
  from parse_object_key_colon [of "''{\"a\":1,}''" 1 "CHR ''}''" "[]" _ 4 "''a''" 5 "Number 1" 6] c1 c2 c3 c4 c5
  have 3: "parse_object_loop ''{\"a\":1,}'' 1 [] = Inl (ParseError ''Expected string key in object'')"
    by simp
  from 1 2 3 d e show ?thesis by blast
qed


subsection \<open>Unicode escapes\<close>

lemma hex_value_less: "hex_digit c \<Longrightarrow> hex_value c < 16"
  by (auto simp: hex_digit_def hex_value_def less_eq_char_def)

lemma parse_unicode_escape_loop_step:
  assumes "pos < length inp" "hex_digit (inp ! pos)"
  shows "parse_unicode_escape_loop (Suc n) inp pos (of_nat m)
           = parse_unicode_escape_loop n inp (pos + 1) (of_nat (16 * m + hex_value (inp ! pos)))"
proof -
  have "push_bit 4 (of_nat m :: 32 word) + of_nat h = of_nat (16 * m + h)" for h
    by (simp add: push_bit_eq_mult)
  moreover have "10 + of_char c - k = 10 + (of_char c - k)" if "k \<le> of_char c" for c :: char and k :: nat
    using that by simp
  ultimately show ?thesis
    using assms
    by (auto simp: eof_def Let_def hex_digit_def hex_value_def less_eq_char_def)
qed

lemma parse_unicode_escape_loop_hex4:
  assumes "pos + 4 \<le> length inp" "\<forall>i<4. hex_digit (inp ! (pos + i))"
  shows "parse_unicode_escape_loop 4 inp pos 0 = Inr (of_nat (hex4 inp pos), pos + 4)"
proof -
  from assms(2) have d: "hex_digit (inp ! pos)" "hex_digit (inp ! (pos + 1))"
      "hex_digit (inp ! (pos + 2))" "hex_digit (inp ! (pos + 3))"
    using spec [OF assms(2), of 0] spec [OF assms(2), of 1] spec [OF assms(2), of 2]
      spec [OF assms(2), of 3]
    by simp_all
  have "parse_unicode_escape_loop 4 inp pos (of_nat 0)
      = parse_unicode_escape_loop (Suc (Suc (Suc (Suc 0)))) inp pos (of_nat 0)"
    by (simp add: numeral_eq_Suc)
  also have "\<dots> = parse_unicode_escape_loop (Suc (Suc (Suc 0))) inp (pos + 1) (of_nat (16 * 0 + hex_value (inp ! pos)))"
    using assms(1) d(1) by (intro parse_unicode_escape_loop_step) simp_all
  also have "\<dots> = parse_unicode_escape_loop (Suc (Suc 0)) inp (pos + 1 + 1)
      (of_nat (16 * (16 * 0 + hex_value (inp ! pos)) + hex_value (inp ! (pos + 1))))"
    using assms(1) d(2) by (intro parse_unicode_escape_loop_step) simp_all
  also have "\<dots> = parse_unicode_escape_loop (Suc 0) inp (pos + 1 + 1 + 1)
      (of_nat (16 * (16 * (16 * 0 + hex_value (inp ! pos)) + hex_value (inp ! (pos + 1)))
         + hex_value (inp ! (pos + 1 + 1))))"
    using assms(1) d(3) by (intro parse_unicode_escape_loop_step) (simp_all add: numeral_2_eq_2)
  also have "\<dots> = parse_unicode_escape_loop 0 inp (pos + 1 + 1 + 1 + 1)
      (of_nat (16 * (16 * (16 * (16 * 0 + hex_value (inp ! pos)) + hex_value (inp ! (pos + 1)))
         + hex_value (inp ! (pos + 1 + 1))) + hex_value (inp ! (pos + 1 + 1 + 1))))"
    using assms(1) d(4) by (intro parse_unicode_escape_loop_step) (simp_all add: numeral_3_eq_3)
  also have "\<dots> = Inr (of_nat (hex4 inp pos), pos + 4)"
    by (simp add: hex4_def numeral_2_eq_2 numeral_3_eq_3 add.commute)
  finally show ?thesis by simp
qed

lemma hex4_less:
  assumes "\<forall>i<4. hex_digit (inp ! (pos + i))"
  shows "hex4 inp pos < 65536"
proof -
  have "hex_value (inp ! pos) < 16" "hex_value (inp ! (pos + 1)) < 16"
      "hex_value (inp ! (pos + 2)) < 16" "hex_value (inp ! (pos + 3)) < 16"
    using spec [OF assms, of 0] spec [OF assms, of 1] spec [OF assms, of 2] spec [OF assms, of 3]
    by (simp_all add: hex_value_less)
  then show ?thesis by (simp add: hex4_def)
qed

lemma parse_unicode_escape_hex4:
  assumes "pos + 4 \<le> length inp" "\<forall>i<4. hex_digit (inp ! (pos + i))"
  shows "parse_unicode_escape inp pos
           = Inr (if hex4 inp pos \<le> 0x7F then char_of (hex4 inp pos) else CHR ''?'', pos + 4)"
proof -
  have lt: "hex4 inp pos < 2 ^ 32" using hex4_less [OF assms(2)] by simp
  then have u: "unat (of_nat (hex4 inp pos) :: 32 word) = hex4 inp pos"
    by (simp add: unat_of_nat)
  have "(of_nat (hex4 inp pos) :: 32 word) \<le> 0x7F \<longleftrightarrow> hex4 inp pos \<le> 0x7F"
    unfolding word_le_nat_alt u by simp
  with u show ?thesis
    by (simp add: parse_unicode_escape_def parse_unicode_escape_loop_hex4 [OF assms])
qed

lemma parse_string_loop_unicode:
  assumes "pos + 1 < length inp" "inp ! pos = CHR 0x5C" "inp ! (pos + 1) = CHR ''u''"
    and "parse_unicode_escape inp (pos + 2) = Inr (c, p)"
  shows "parse_string_loop inp pos result = parse_string_loop inp p (result @ [c])"
proof -
  from assms have "parse_escape inp (pos + 1 + 1) (inp ! (pos + 1)) = Inr (c, p)"
    by (simp add: parse_escape_def numeral_2_eq_2)
  with assms(1,2) show ?thesis
    by (subst parse_string_loop.simps) (simp add: eof_def Let_def)
qed

text \<open>
  C2. For a \<^verbatim>\<open>\u\<close> escape with four hexadecimal digits, \<^verbatim>\<open>parse_unicode_escape\<close>
  returns the character with the digits' value when the value is at most 0x7F and the
  character \<^verbatim>\<open>?\<close> for every greater value, and \<^verbatim>\<open>parse_string\<close> appends exactly that
  one character and goes on after the digits. The parse of \<^verbatim>\<open>"caf\u00e9"\<close> is the string
  \<^verbatim>\<open>caf?\<close>.
\<close>

theorem parse_unicode_escape_ascii_or_question:
  "(pos + 4 \<le> length inp \<and> (\<forall>i<4. hex_digit (inp ! (pos + i))) \<longrightarrow>
      parse_unicode_escape inp pos
        = Inr (if hex4 inp pos \<le> 0x7F then char_of (hex4 inp pos) else CHR ''?'', pos + 4)) \<and>
   (pos + 1 < length inp \<and> inp ! pos = CHR 0x5C \<and> inp ! (pos + 1) = CHR ''u'' \<and>
    parse_unicode_escape inp (pos + 2) = Inr (c, p) \<longrightarrow>
      parse_string_loop inp pos result = parse_string_loop inp p (result @ [c])) \<and>
   parse (''\"caf'' @ [CHR 0x5C] @ ''u00e9\"'') = Inr (String ''caf?'')"
proof -
  have "parse (''\"caf'' @ [CHR 0x5C] @ ''u00e9\"'') = Inr (String ''caf?'')"
    by code_simp
  then show ?thesis
    using parse_unicode_escape_hex4 [of pos inp] parse_string_loop_unicode [of pos inp c p result]
    by blast
qed

theorem parse_unicode_escape_ascii_or_question_witness:
  "parse_unicode_escape ''0041'' 0 = Inr (CHR ''A'', 4) \<and>
   parse_unicode_escape ''00e9'' 0 = Inr (CHR ''?'', 4) \<and>
   parse_unicode_escape ''D83D'' 0 = Inr (CHR ''?'', 4) \<and>
   parse_string_loop ([CHR 0x5C] @ ''u00e9\"'') 0 ''caf'' = parse_string_loop ([CHR 0x5C] @ ''u00e9\"'') 6 ''caf?''"
proof -
  have h: "\<forall>i<4. hex_digit (''0041'' ! (0 + i))" "\<forall>i<4. hex_digit (''00e9'' ! (0 + i))"
      "\<forall>i<4. hex_digit (''D83D'' ! (0 + i))"
    by (simp_all add: hex_digit_def less_eq_char_def All_less_Suc numeral_eq_Suc)
  have v: "hex4 ''0041'' 0 = 65" "hex4 ''00e9'' 0 = 233" "hex4 ''D83D'' 0 = 55357"
    by (simp_all add: hex4_def hex_value_def less_eq_char_def)
  have c: "char_of (65 :: nat) = CHR ''A''" by code_simp
  have e: "parse_unicode_escape ([CHR 0x5C] @ ''u00e9\"'') (0 + 2) = Inr (CHR ''?'', 6)" by code_simp
  from parse_unicode_escape_ascii_or_question [of 0 "''0041''"]
       parse_unicode_escape_ascii_or_question [of 0 "''00e9''"]
       parse_unicode_escape_ascii_or_question [of 0 "''D83D''"]
       parse_unicode_escape_ascii_or_question [of 0 "[CHR 0x5C] @ ''u00e9\"''" "CHR ''?''" 6 "''caf''"]
       h v c e
  show ?thesis by simp
qed


subsection \<open>Termination\<close>







subsection \<open>The order of the keys of an object\<close>

lemma map_fst_insort_key:
  "map fst (insort_key fst (k, v) obj) = insort k (map fst obj)"
  by (induction obj) auto

lemma emplace_invariant:
  assumes "map_invariant obj"
  shows "map_invariant (emplace k v obj)"
proof (cases "map_find obj k")
  case None
  then have "k \<notin> set (map fst obj)" by (simp add: map_find_None_iff)
  moreover from assms have "sorted (map fst obj)" "distinct (map fst obj)"
    by (simp_all add: map_invariant_def strict_sorted_iff)
  ultimately have "sorted (insort k (map fst obj))" "distinct (insort k (map fst obj))"
    by (simp_all add: sorted_insort distinct_insort)
  with None show ?thesis
    by (simp add: emplace_def map_invariant_def strict_sorted_iff map_fst_insort_key)
next
  case (Some e)
  with assms show ?thesis by (simp add: emplace_def)
qed

lemma set_emplace: "set (emplace k v obj) \<subseteq> insert (k, v) (set obj)"
  by (auto simp: emplace_def set_insort_key split: option.splits)

lemma keys_ascending_emplace:
  assumes "map_invariant obj" "\<forall>entry \<in> set obj. keys_ascending (snd entry)" "keys_ascending v"
  shows "keys_ascending (Object (emplace k v obj))"
  using assms emplace_invariant [OF assms(1), of k v] set_emplace [of k v obj]
  by auto

lemma parse_scalar_keys_ascending:
  "parse_null inp pos = Inr (v, p) \<Longrightarrow> keys_ascending v"
  "parse_bool inp pos = Inr (v, p) \<Longrightarrow> keys_ascending v"
  "parse_string inp pos = Inr (v, p) \<Longrightarrow> keys_ascending v"
  "parse_number inp pos = Inr (v, p) \<Longrightarrow> keys_ascending v"
     apply (auto simp: parse_null_def split: sum.splits)[1]
    apply (auto simp: parse_bool_def split: sum.splits prod.splits if_splits)[1]
   apply (auto dest: parse_string_String)[1]
  apply (auto simp: parse_number_def Let_def split: sum.splits if_splits)[1]
  done

lemma parse_keys_ascending:
  "parse_value inp pos = Inr (v, p) \<Longrightarrow> keys_ascending v"
  "parse_array inp pos = Inr (v, p) \<Longrightarrow> keys_ascending v"
  "parse_array_loop inp pos array = Inr (v, p) \<Longrightarrow> \<forall>x \<in> set array. keys_ascending x \<Longrightarrow> keys_ascending v"
  "parse_object inp pos = Inr (v, p) \<Longrightarrow> keys_ascending v"
  "parse_object_loop inp pos object = Inr (v, p) \<Longrightarrow> map_invariant object \<Longrightarrow>
     \<forall>entry \<in> set object. keys_ascending (snd entry) \<Longrightarrow> keys_ascending v"
proof (induction inp pos and inp pos and inp pos array and inp pos and inp pos object
       arbitrary: v p and v p and v p and v p and v p
       rule: parse_value_parse_array_parse_array_loop_parse_object_parse_object_loop.induct)
  case (1 inp pos)
  from "1.prems" have ne: "\<not> eof inp pos"
    by (subst (asm) parse_value.simps) (simp split: if_splits)
  show ?case
  proof (cases "inp ! pos = CHR ''['' \<or> inp ! pos = CHR ''{''")
    case True
    with "1.prems" ne "1.IH" show ?thesis
      by (subst (asm) parse_value.simps) (auto simp: Let_def split: if_splits)
  next
    case False
    with "1.prems" ne show ?thesis
      by (subst (asm) parse_value.simps)
         (auto simp: Let_def split: if_splits dest: parse_scalar_keys_ascending)
  qed
next
  case (2 inp pos)
  from "2.prems" obtain c where ec: "expect_char inp pos (CHR ''['') = Inr (pos + 1)"
      and c: "peek inp (skip_whitespace inp (pos + 1)) = Inr c"
      and r: "if c = CHR '']'' then v = Array []
              else parse_array_loop inp (skip_whitespace inp (pos + 1)) [] = Inr (v, p)"
    by (subst (asm) parse_array.simps)
       (auto simp: Let_def expect_char_Inr split: sum.splits if_splits)
  show ?case
  proof (cases "c = CHR '']''")
    case True
    with r show ?thesis by simp
  next
    case False
    with r have "parse_array_loop inp (skip_whitespace inp (pos + 1)) [] = Inr (v, p)" by simp
    from "2.IH" [OF ec refl c False this] show ?thesis by simp
  qed
next
  case (3 inp pos array)
  from "3.prems"(1) obtain x y c where pv: "parse_value inp pos = Inr (x, y)"
      and c: "peek inp (skip_whitespace inp y) = Inr c"
      and r: "if c = CHR '','' then
                parse_array_loop inp (skip_whitespace inp (skip_whitespace inp y + 1)) (array @ [x]) = Inr (v, p)
              else v = Array (array @ [x])"
    by (subst (asm) parse_array_loop.simps) (auto simp: Let_def split: sum.splits if_splits)
  from "3.IH"(1) [OF pv] have x: "keys_ascending x" .
  with "3.prems"(2) have all: "\<forall>z \<in> set (array @ [x]). keys_ascending z" by simp
  show ?case
  proof (cases "c = CHR '',''")
    case True
    with r have "parse_array_loop inp (skip_whitespace inp (skip_whitespace inp y + 1)) (array @ [x]) = Inr (v, p)"
      by simp
    from "3.IH"(2) [OF pv refl refl refl c True this all] show ?thesis .
  next
    case False
    with r all show ?thesis by simp
  qed
next
  case (4 inp pos)
  from "4.prems" obtain c where ec: "expect_char inp pos (CHR ''{'') = Inr (pos + 1)"
      and c: "peek inp (skip_whitespace inp (pos + 1)) = Inr c"
      and r: "if c = CHR ''}'' then v = Object []
              else parse_object_loop inp (skip_whitespace inp (pos + 1)) [] = Inr (v, p)"
    by (subst (asm) parse_object.simps)
       (auto simp: Let_def expect_char_Inr split: sum.splits if_splits)
  show ?case
  proof (cases "c = CHR ''}''")
    case True
    with r show ?thesis by (simp add: map_invariant_def)
  next
    case False
    with r have "parse_object_loop inp (skip_whitespace inp (pos + 1)) [] = Inr (v, p)" by simp
    from "4.IH" [OF ec refl c False this] show ?thesis by (simp add: map_invariant_def)
  qed
next
  case (5 inp pos object)
  from "5.prems"(1) obtain ks p1 key p2 x p3 c where pk: "peek inp pos = Inr (CHR 0x22)"
      and ps: "parse_string inp pos = Inr (ks, p1)"
      and ky: "as_string ks = Inr key"
      and ec: "expect_char inp (skip_whitespace inp p1) (CHR '':'') = Inr p2"
      and pv: "parse_value inp (skip_whitespace inp p2) = Inr (x, p3)"
      and c: "peek inp (skip_whitespace inp p3) = Inr c"
      and r: "if c = CHR '','' then
                parse_object_loop inp (skip_whitespace inp (skip_whitespace inp p3 + 1)) (emplace key x object) = Inr (v, p)
              else v = Object (emplace key x object)"
    by (subst (asm) parse_object_loop.simps) (auto simp: Let_def split: sum.splits if_splits)
  have nn: "\<not> CHR 0x22 \<noteq> CHR 0x22" by simp
  from "5.IH"(1) [OF pk nn ps refl ky ec pv] have x: "keys_ascending x" .
  from keys_ascending_emplace [OF "5.prems"(2,3) x, of key]
  have inv: "map_invariant (emplace key x object)"
      and all: "\<forall>entry \<in> set (emplace key x object). keys_ascending (snd entry)"
    by simp_all
  show ?case
  proof (cases "c = CHR '',''")
    case True
    with r have "parse_object_loop inp (skip_whitespace inp (skip_whitespace inp p3 + 1)) (emplace key x object) = Inr (v, p)"
      by simp
    from "5.IH"(2) [OF pk nn ps refl ky ec pv refl refl refl c True this inv all] show ?thesis .
  next
    case False
    with r inv all show ?thesis by simp
  qed
qed

text \<open>
  C8. In every value that \<^verbatim>\<open>parse\<close> returns, the entries of every object, nested ones
  included, are in strictly ascending bytewise lexicographic order of their keys,
  whatever the order of the pairs in the input.
\<close>

theorem parse_keys_lexicographic:
  "parse inp = Inr v \<Longrightarrow> keys_ascending v"
  by (auto simp: parse_def split: sum.splits if_splits dest: parse_keys_ascending(1))

theorem parse_keys_lexicographic_witness:
  "parse ''{\"b\":1,\"a\":{\"z\":null,\"B\":[{\"d\":1,\"c\":2}]},\"ab\":2}''
     = Inr (Object [(''a'', Object [(''B'', Array [Object [(''c'', Number 2), (''d'', Number 1)]]), (''z'', Null)]),
                    (''ab'', Number 2), (''b'', Number 1)]) \<and>
   keys_ascending (Object [(''a'', Object [(''B'', Array [Object [(''c'', Number 2), (''d'', Number 1)]]), (''z'', Null)]),
                    (''ab'', Number 2), (''b'', Number 1)])"
proof -
  have e: "parse ''{\"b\":1,\"a\":{\"z\":null,\"B\":[{\"d\":1,\"c\":2}]},\"ab\":2}''
     = Inr (Object [(''a'', Object [(''B'', Array [Object [(''c'', Number 2), (''d'', Number 1)]]), (''z'', Null)]),
                    (''ab'', Number 2), (''b'', Number 1)])"
    by code_simp
  from parse_keys_lexicographic [OF e] e show ?thesis by blast
qed


subsection \<open>Repeated keys\<close>

lemma map_find_insort_key_other:
  "key \<noteq> k \<Longrightarrow> map_find (insort_key fst (k, x) obj) key = map_find obj key"
  by (induction obj) (auto simp: map_find_def)

lemma map_find_insort_key_same:
  "map_find obj k = None \<Longrightarrow> map_find (insort_key fst (k, x) obj) k = Some (k, x)"
  by (induction obj) (auto simp: map_find_def split: if_splits)

lemma get_object_emplace:
  "get_object (emplace k x object) key =
     (case get_object object key of
        Some y \<Rightarrow> Some y
      | None \<Rightarrow> if key = k then Some x else None)"
proof (cases "map_find object k")
  case None
  show ?thesis
  proof (cases "key = k")
    case True
    with None show ?thesis by (simp add: get_object_def emplace_def map_find_insort_key_same)
  next
    case False
    with None show ?thesis
      by (simp add: get_object_def emplace_def map_find_insort_key_other split: option.splits)
  qed
next
  case (Some e)
  then show ?thesis by (auto simp: get_object_def emplace_def split: option.splits)
qed

lemma get_object_emplace_all:
  "get_object (emplace_all pairs object) key =
     (case get_object object key of
        Some y \<Rightarrow> Some y
      | None \<Rightarrow> map_of pairs key)"
proof (induction pairs arbitrary: object)
  case Nil
  show ?case by (simp add: emplace_all_def split: option.splits)
next
  case (Cons a pairs)
  obtain k x where a: "a = (k, x)" by (cases a)
  have "emplace_all (a # pairs) object = emplace_all pairs (emplace k x object)"
    by (simp add: emplace_all_def a)
  with Cons.IH [of "emplace k x object"] show ?case
    by (simp add: a get_object_emplace split: option.splits)
qed

lemma parse_object_loop_pairs:
  "parse_value inp pos = parse_value inp pos"
  "parse_array inp pos = parse_array inp pos"
  "parse_array_loop inp pos array = parse_array_loop inp pos array"
  "parse_object inp pos = parse_object inp pos"
  "parse_object_loop inp pos object = Inr (v, p) \<Longrightarrow>
     \<exists>pairs. object_pairs inp pos pairs p \<and> v = Object (emplace_all pairs object)"
proof (induction inp pos and inp pos and inp pos array and inp pos and inp pos object
       arbitrary: and and and and v p
       rule: parse_value_parse_array_parse_array_loop_parse_object_parse_object_loop.induct)
  case (5 inp pos object)
  from "5.prems"(1) obtain ks p1 key p2 x p3 c where pk: "peek inp pos = Inr (CHR 0x22)"
      and ps: "parse_string inp pos = Inr (ks, p1)"
      and ky: "as_string ks = Inr key"
      and ec: "expect_char inp (skip_whitespace inp p1) (CHR '':'') = Inr p2"
      and pv: "parse_value inp (skip_whitespace inp p2) = Inr (x, p3)"
      and c: "peek inp (skip_whitespace inp p3) = Inr c"
      and r: "if c = CHR '','' then
                parse_object_loop inp (skip_whitespace inp (skip_whitespace inp p3 + 1)) (emplace key x object) = Inr (v, p)
              else c = CHR ''}'' \<and> v = Object (emplace key x object) \<and> p = skip_whitespace inp p3 + 1"
    by (subst (asm) parse_object_loop.simps) (auto simp: Let_def split: sum.splits if_splits)
  from ky have ks: "ks = String key" by (auto simp: as_string_def split: JsonValue.splits)
  have nn: "\<not> CHR 0x22 \<noteq> CHR 0x22" by simp
  show ?case
  proof (cases "c = CHR '',''")
    case True
    with r have "parse_object_loop inp (skip_whitespace inp (skip_whitespace inp p3 + 1)) (emplace key x object) = Inr (v, p)"
      by simp
    from "5.IH"(2) [OF pk nn ps refl ky ec pv refl refl refl c True this]
    obtain pairs where pairs: "object_pairs inp (skip_whitespace inp (skip_whitespace inp p3 + 1)) pairs p"
        and v: "v = Object (emplace_all pairs (emplace key x object))"
      by blast
    from ps ec pv c True pairs have "object_pairs inp pos ((key, x) # pairs) p"
      unfolding ks by (intro object_pairs.next_pair) simp_all
    moreover from v have "v = Object (emplace_all ((key, x) # pairs) object)"
      by (simp add: emplace_all_def)
    ultimately show ?thesis by blast
  next
    case False
    with r have c': "c = CHR ''}''" and v: "v = Object (emplace key x object)"
        and p: "p = skip_whitespace inp p3 + 1"
      by simp_all
    from ps ec pv c c' have "object_pairs inp pos [(key, x)] p"
      unfolding ks p by (intro object_pairs.last_pair) simp_all
    moreover from v have "v = Object (emplace_all [(key, x)] object)"
      by (simp add: emplace_all_def)
    ultimately show ?thesis by blast
  qed
qed simp_all

lemma object_pairs_parse_object_loop:
  "object_pairs inp pos pairs p \<Longrightarrow>
     parse_object_loop inp pos object = Inr (Object (emplace_all pairs object), p)"
proof (induction arbitrary: object rule: object_pairs.induct)
  case (last_pair pos key p1 p2 v p3)
  then show ?case
    by (simp add: parse_object_loop_close emplace_all_def)
next
  case (next_pair pos key p1 p2 v p3 pairs p)
  have "parse_object_loop inp pos object
      = parse_object_loop inp (skip_whitespace inp (skip_whitespace inp p3 + 1)) (emplace key v object)"
    using next_pair.hyps(1-4) by (rule parse_object_loop_comma)
  also have "\<dots> = Inr (Object (emplace_all pairs (emplace key v object)), p)"
    by (rule next_pair.IH)
  finally show ?case by (simp add: emplace_all_def)
qed

text \<open>
  C1. When the pairs of an object literal are \<open>pairs\<close>, in the order of the input,
  \<^verbatim>\<open>parse_object\<close> returns the object that \<^verbatim>\<open>emplace\<close> builds from them one after the
  other, and every object it returns is built so. That object maps every key to the
  value of the first pair with that key (\<open>map_of\<close> looks the pairs up from the front):
  \<^verbatim>\<open>emplace\<close> leaves the object unchanged when the key is present, so every later value
  for the key is dropped. The parse of \<^verbatim>\<open>{"a":1,"a":2}\<close> is the object that maps
  \<^verbatim>\<open>a\<close> to the number 1.
\<close>

theorem parse_object_first_wins:
  "(object_pairs inp q pairs p \<longrightarrow>
      parse_object_loop inp q object = Inr (Object (emplace_all pairs object), p)) \<and>
   (\<forall>key. get_object (emplace_all pairs []) key = map_of pairs key) \<and>
   (parse_object inp pos = Inr (v, p) \<longrightarrow>
      (\<exists>pairs. (pairs = [] \<or> object_pairs inp (skip_whitespace inp (pos + 1)) pairs p) \<and>
         v = Object (emplace_all pairs []))) \<and>
   (map_find object key \<noteq> None \<longrightarrow> emplace key x object = object) \<and>
   parse ''{\"a\":1,\"a\":2}'' = Inr (Object [(''a'', Number 1)])"
proof -
  have "\<exists>pairs. (pairs = [] \<or> object_pairs inp (skip_whitespace inp (pos + 1)) pairs p) \<and>
         v = Object (emplace_all pairs [])"
    if "parse_object inp pos = Inr (v, p)"
  proof -
    from that obtain c where c: "peek inp (skip_whitespace inp (pos + 1)) = Inr c"
      and r: "if c = CHR ''}'' then v = Object []
              else parse_object_loop inp (skip_whitespace inp (pos + 1)) [] = Inr (v, p)"
      by (subst (asm) parse_object.simps)
         (auto simp: Let_def expect_char_Inr split: sum.splits if_splits)
    show ?thesis
    proof (cases "c = CHR ''}''")
      case True
      with r have "v = Object (emplace_all [] [])" by (simp add: emplace_all_def)
      then show ?thesis by blast
    next
      case False
      with r have "parse_object_loop inp (skip_whitespace inp (pos + 1)) [] = Inr (v, p)" by simp
      from parse_object_loop_pairs(5) [OF this] show ?thesis by blast
    qed
  qed
  moreover have "\<forall>key. get_object (emplace_all pairs []) key = map_of pairs key"
    by (simp add: get_object_emplace_all) (simp add: get_object_def map_find_def)
  moreover have "emplace key x object = object" if "map_find object key \<noteq> None"
    using that by (auto simp: emplace_def)
  moreover have "parse ''{\"a\":1,\"a\":2}'' = Inr (Object [(''a'', Number 1)])"
    by code_simp
  ultimately show ?thesis
    using object_pairs_parse_object_loop [of inp q pairs p object] by blast
qed

theorem parse_object_first_wins_witness:
  "object_pairs ''{\"a\":1,\"b\":3,\"a\":2}'' 1 [(''a'', Number 1), (''b'', Number 3), (''a'', Number 2)] 19 \<and>
   parse_object_loop ''{\"a\":1,\"b\":3,\"a\":2}'' 1 []
     = Inr (Object (emplace_all [(''a'', Number 1), (''b'', Number 3), (''a'', Number 2)] []), 19) \<and>
   emplace_all [(''a'', Number 1), (''b'', Number 3), (''a'', Number 2)] [] = [(''a'', Number 1), (''b'', Number 3)] \<and>
   get_object (emplace_all [(''a'', Number 1), (''b'', Number 3), (''a'', Number 2)] []) ''a'' = Some (Number 1) \<and>
   parse_object ''{\"a\":1,\"b\":3,\"a\":2}'' 0 = Inr (Object [(''a'', Number 1), (''b'', Number 3)], 19) \<and>
   emplace ''a'' (Number 2) [(''a'', Number 1), (''b'', Number 3)] = [(''a'', Number 1), (''b'', Number 3)]"
proof -
  let ?inp = "''{\"a\":1,\"b\":3,\"a\":2}''"
  let ?pairs = "[(''a'', Number 1), (''b'', Number 3), (''a'', Number 2)]"
  have a3: "parse_string ?inp 13 = Inr (String ''a'', 16)" by code_simp
  have b3: "expect_char ?inp (skip_whitespace ?inp 16) (CHR '':'') = Inr 17" by code_simp
  have c3: "parse_value ?inp (skip_whitespace ?inp 17) = Inr (Number 2, 18)" by code_simp
  have d3: "peek ?inp (skip_whitespace ?inp 18) = Inr (CHR ''}'')" by code_simp
  have e3: "skip_whitespace ?inp 18 + 1 = 19" by code_simp
  have 3: "object_pairs ?inp 13 [(''a'', Number 2)] 19"
    using object_pairs.last_pair [OF a3 b3 c3 d3] by (simp only: e3)
  have a2: "parse_string ?inp 7 = Inr (String ''b'', 10)" by code_simp
  have b2: "expect_char ?inp (skip_whitespace ?inp 10) (CHR '':'') = Inr 11" by code_simp
  have c2: "parse_value ?inp (skip_whitespace ?inp 11) = Inr (Number 3, 12)" by code_simp
  have d2: "peek ?inp (skip_whitespace ?inp 12) = Inr (CHR '','')" by code_simp
  have e2: "skip_whitespace ?inp (skip_whitespace ?inp 12 + 1) = 13" by code_simp
  have 2: "object_pairs ?inp 7 [(''b'', Number 3), (''a'', Number 2)] 19"
    using 3 by (intro object_pairs.next_pair [OF a2 b2 c2 d2]) (simp only: e2)
  have a1: "parse_string ?inp 1 = Inr (String ''a'', 4)" by code_simp
  have b1: "expect_char ?inp (skip_whitespace ?inp 4) (CHR '':'') = Inr 5" by code_simp
  have c1: "parse_value ?inp (skip_whitespace ?inp 5) = Inr (Number 1, 6)" by code_simp
  have d1: "peek ?inp (skip_whitespace ?inp 6) = Inr (CHR '','')" by code_simp
  have e1: "skip_whitespace ?inp (skip_whitespace ?inp 6 + 1) = 7" by code_simp
  have 1: "object_pairs ?inp 1 ?pairs 19"
    using 2 by (intro object_pairs.next_pair [OF a1 b1 c1 d1]) (simp only: e1)
  have f: "map_find [(''a'', Number 1), (''b'', Number 3)] ''a'' \<noteq> None" by code_simp
  have g: "emplace_all ?pairs [] = [(''a'', Number 1), (''b'', Number 3)]" by code_simp
  have h: "parse_object ?inp 0 = Inr (Object [(''a'', Number 1), (''b'', Number 3)], 19)"
    by code_simp
  note inst = parse_object_first_wins [of ?inp 1 ?pairs 19 "[]" 0 "Object [(''a'', Number 1), (''b'', Number 3)]"
         "''a''" "Number 2"]
  from inst 1 have l: "parse_object_loop ?inp 1 [] = Inr (Object (emplace_all ?pairs []), 19)"
    by blast
  from inst have "get_object (emplace_all ?pairs []) ''a'' = map_of ?pairs ''a''" by blast
  then have m: "get_object (emplace_all ?pairs []) ''a'' = Some (Number 1)" by simp
  from parse_object_first_wins [of ?inp 1 ?pairs 19 "[(''a'', Number 1), (''b'', Number 3)]" 0
         "Object [(''a'', Number 1), (''b'', Number 3)]" "''a''" "Number 2"] f
  have n: "emplace ''a'' (Number 2) [(''a'', Number 1), (''b'', Number 3)] = [(''a'', Number 1), (''b'', Number 3)]"
    by blast
  from 1 l g m h n show ?thesis by blast
qed


end
